theory Spec2Isabelle
  imports Complex_Main "HOL-Library.AList"
begin

section \<open>JavaScript numbers\<close>

text \<open>
  The library computes on JavaScript numbers, the binary64 numbers of IEEE 754. A number
  is modelled as a finite real or one of the three special values. The sign of zero is
  not modelled (a zero divisor counts as positive zero).

  The operations come in two layers. The functions of this section are the operations
  of the extended real line: they are exact on finite values and fix what \<open>+ - * /\<close>,
  \<open>Math.sqrt\<close>, \<open>Math.pow\<close>, \<open>Math.abs\<close>, \<open>Math.floor\<close>, \<open>Math.exp\<close> and the
  comparisons do with \<open>NaN\<close> and the infinities, so \<open>0/0\<close> is \<open>NaN\<close> and \<open>1/0\<close> is
  \<open>Infinity\<close>. The next section rounds their results to binary64, which gives the
  arithmetic of the source with its rounding, overflow and underflow.
\<close>

datatype jsnum = Fin real | PInf | NInf | NaN

fun js_neg :: "jsnum \<Rightarrow> jsnum" where
  "js_neg (Fin a) = Fin (- a)"
| "js_neg PInf = NInf"
| "js_neg NInf = PInf"
| "js_neg NaN = NaN"

fun js_add :: "jsnum \<Rightarrow> jsnum \<Rightarrow> jsnum" where
  "js_add NaN _ = NaN"
| "js_add _ NaN = NaN"
| "js_add (Fin a) (Fin b) = Fin (a + b)"
| "js_add PInf NInf = NaN"
| "js_add NInf PInf = NaN"
| "js_add PInf _ = PInf"
| "js_add _ PInf = PInf"
| "js_add NInf _ = NInf"
| "js_add _ NInf = NInf"

definition js_sub :: "jsnum \<Rightarrow> jsnum \<Rightarrow> jsnum" where
  "js_sub a b = js_add a (js_neg b)"

definition inf_of_sign :: "real \<Rightarrow> jsnum" where
  "inf_of_sign s = (if s = 0 then NaN else if 0 < s then PInf else NInf)"

fun js_mul :: "jsnum \<Rightarrow> jsnum \<Rightarrow> jsnum" where
  "js_mul NaN _ = NaN"
| "js_mul _ NaN = NaN"
| "js_mul (Fin a) (Fin b) = Fin (a * b)"
| "js_mul (Fin a) PInf = inf_of_sign a"
| "js_mul (Fin a) NInf = inf_of_sign (- a)"
| "js_mul PInf (Fin b) = inf_of_sign b"
| "js_mul NInf (Fin b) = inf_of_sign (- b)"
| "js_mul PInf PInf = PInf"
| "js_mul NInf NInf = PInf"
| "js_mul PInf NInf = NInf"
| "js_mul NInf PInf = NInf"

fun js_div :: "jsnum \<Rightarrow> jsnum \<Rightarrow> jsnum" where
  "js_div NaN _ = NaN"
| "js_div _ NaN = NaN"
| "js_div (Fin a) (Fin b) = (if b = 0 then inf_of_sign a else Fin (a / b))"
| "js_div (Fin a) _ = Fin 0"
| "js_div PInf (Fin b) = (if 0 \<le> b then PInf else NInf)"
| "js_div NInf (Fin b) = (if 0 \<le> b then NInf else PInf)"
| "js_div _ _ = NaN"

fun js_lt :: "jsnum \<Rightarrow> jsnum \<Rightarrow> bool" where
  "js_lt NaN _ = False"
| "js_lt _ NaN = False"
| "js_lt (Fin a) (Fin b) = (a < b)"
| "js_lt NInf NInf = False"
| "js_lt NInf _ = True"
| "js_lt PInf _ = False"
| "js_lt _ PInf = True"
| "js_lt _ NInf = False"

definition js_gt :: "jsnum \<Rightarrow> jsnum \<Rightarrow> bool" where
  "js_gt a b = js_lt b a"

definition js_eq :: "jsnum \<Rightarrow> jsnum \<Rightarrow> bool" where
  \<comment> \<open>\<open>===\<close> on numbers: \<open>NaN\<close> equals nothing\<close>
  "js_eq a b = (a \<noteq> NaN \<and> a = b)"

definition js_le :: "jsnum \<Rightarrow> jsnum \<Rightarrow> bool" where
  "js_le a b = (js_lt a b \<or> js_eq a b)"

definition truthy :: "jsnum \<Rightarrow> bool" where
  \<comment> \<open>a number is falsy when it is \<open>0\<close> or \<open>NaN\<close>\<close>
  "truthy a = (a \<noteq> NaN \<and> a \<noteq> Fin 0)"

fun Math_abs :: "jsnum \<Rightarrow> jsnum" where
  "Math_abs (Fin a) = Fin \<bar>a\<bar>"
| "Math_abs NaN = NaN"
| "Math_abs _ = PInf"

fun Math_sqrt :: "jsnum \<Rightarrow> jsnum" where
  "Math_sqrt (Fin a) = (if a < 0 then NaN else Fin (sqrt a))"
| "Math_sqrt PInf = PInf"
| "Math_sqrt _ = NaN"

fun Math_floor :: "jsnum \<Rightarrow> jsnum" where
  "Math_floor (Fin a) = Fin (of_int \<lfloor>a\<rfloor>)"
| "Math_floor x = x"

fun Math_exp :: "jsnum \<Rightarrow> jsnum" where
  "Math_exp (Fin a) = Fin (exp a)"
| "Math_exp PInf = PInf"
| "Math_exp NInf = Fin 0"
| "Math_exp NaN = NaN"

definition Math_pow :: "jsnum \<Rightarrow> nat \<Rightarrow> jsnum" where
  \<comment> \<open>\<open>Math.pow(x, n)\<close> at a literal exponent \<open>n\<close>, the only use the source makes of it here\<close>
  "Math_pow x n =
    (if n = 0 then Fin 1
     else case x of
            Fin a \<Rightarrow> Fin (a ^ n)
          | PInf \<Rightarrow> PInf
          | NInf \<Rightarrow> (if even n then PInf else NInf)
          | NaN \<Rightarrow> NaN)"

definition js_max2 :: "jsnum \<Rightarrow> jsnum \<Rightarrow> jsnum" where
  "js_max2 a b = (if a = NaN \<or> b = NaN then NaN else if js_lt a b then b else a)"

definition js_min2 :: "jsnum \<Rightarrow> jsnum \<Rightarrow> jsnum" where
  "js_min2 a b = (if a = NaN \<or> b = NaN then NaN else if js_lt b a then b else a)"

definition Math_max :: "jsnum list \<Rightarrow> jsnum" where
  \<comment> \<open>\<open>Math.max(...xs)\<close>: \<open>-Infinity\<close> on no argument, \<open>NaN\<close> as soon as one argument is\<close>
  "Math_max xs = foldl js_max2 NInf xs"

definition Math_min :: "jsnum list \<Rightarrow> jsnum" where
  "Math_min xs = foldl js_min2 PInf xs"

definition len :: "'a list \<Rightarrow> jsnum" where
  \<comment> \<open>\<open>xs.length\<close>, as the number the source computes with\<close>
  "len xs = Fin (real (length xs))"

datatype js_error = Error string | TypeError string

section \<open>Rounding to binary64\<close>

text \<open>
  The finite binary64 numbers are the reals \<open>m * 2\<^sup>e\<close> with \<open>|m| < 2\<^sup>5\<^sup>3\<close> and
  \<open>-1074 \<le> e \<le> 971\<close>, the subnormal ones among them. A real is rounded to the nearest
  of them, a tie to the one whose significand is even (the neighbours of a real are \<open>lo\<close>
  and \<open>hi\<close>, and \<open>lo / (hi - lo)\<close> is the significand of \<open>lo\<close>). The grid on which
  the neighbours are looked up holds \<open>2\<^sup>1\<^sup>0\<^sup>2\<^sup>4\<close> and its opposite next to the finite
  numbers: a real that rounds to one of the two overflows to the infinity of its sign.
\<close>

definition doubles :: "real set" where
  "doubles = (\<lambda>(m, e). real_of_int m * 2 powi e)
               ` ({- (2 ^ 53 - 1) .. 2 ^ 53 - 1} \<times> {- 1074 .. 971})"

definition grid :: "real set" where
  "grid = insert (2 ^ 1024) (insert (- (2 ^ 1024)) doubles)"

definition round_down :: "real \<Rightarrow> real" where
  "round_down x = Max {d \<in> grid. d \<le> x}"

definition round_up :: "real \<Rightarrow> real" where
  "round_up x = Min {d \<in> grid. x \<le> d}"

definition nearest_even :: "real \<Rightarrow> real" where
  "nearest_even x =
    (let lo = round_down x; hi = round_up x
     in if x - lo < hi - x then lo
        else if hi - x < x - lo then hi
        else if even \<lfloor>lo / (hi - lo)\<rfloor> then lo else hi)"

definition binary64 :: "real \<Rightarrow> jsnum" where
  \<comment> \<open>the number a real rounds to; also the value of a decimal literal of the source\<close>
  "binary64 x =
    (if 2 ^ 1024 \<le> x then PInf
     else if x \<le> - (2 ^ 1024) then NInf
     else let r = nearest_even x
          in if r = 2 ^ 1024 then PInf else if r = - (2 ^ 1024) then NInf else Fin r)"

fun fl :: "jsnum \<Rightarrow> jsnum" where
  "fl (Fin x) = binary64 x"
| "fl v = v"

text \<open>
  The operations of the source: the exact result, rounded. \<open>Math.sqrt\<close> is correctly
  rounded by IEEE 754, and \<open>Math.pow(x, 2)\<close> is computed as the product \<open>x * x\<close>. The
  language leaves the accuracy of \<open>Math.exp\<close> to the implementation and fixes its value
  at \<open>0\<close>, which is \<open>1\<close>; it is taken here as the correctly rounded exponential, and
  nothing below depends on more than its value at \<open>0\<close>.
\<close>

definition fl_add :: "jsnum \<Rightarrow> jsnum \<Rightarrow> jsnum" where
  "fl_add a b = fl (js_add a b)"

definition fl_sub :: "jsnum \<Rightarrow> jsnum \<Rightarrow> jsnum" where
  "fl_sub a b = fl (js_sub a b)"

definition fl_mul :: "jsnum \<Rightarrow> jsnum \<Rightarrow> jsnum" where
  "fl_mul a b = fl (js_mul a b)"

definition fl_div :: "jsnum \<Rightarrow> jsnum \<Rightarrow> jsnum" where
  "fl_div a b = fl (js_div a b)"

definition fl_sqrt :: "jsnum \<Rightarrow> jsnum" where
  "fl_sqrt a = fl (Math_sqrt a)"

definition fl_pow :: "jsnum \<Rightarrow> nat \<Rightarrow> jsnum" where
  "fl_pow a n = fl (Math_pow a n)"

definition fl_exp :: "jsnum \<Rightarrow> jsnum" where
  "fl_exp a = fl (Math_exp a)"

text \<open>
  The functions \<open>erf\<close>, \<open>stats.mean\<close>, \<open>stats.variance\<close>, \<open>stats.standardDeviation\<close>,
  \<open>chiSquareGoodnessOfFit\<close>, \<open>twoSampleTTest\<close> and \<open>confidenceIntervalMean\<close> are
  written with the rounded operations, and a decimal literal \<open>c\<close> of theirs is
  \<open>binary64 c\<close>: what is proved of them depends on the numbers they compute. The other
  functions keep the operations of the first layer: what is proved of them is about
  lengths, counters, constants and the control flow, which rounding does not touch.
\<close>

section \<open>statistical.ts\<close>

subsection \<open>The jStat object\<close>

text \<open>
  \<open>jStat\<close> is \<open>window.jStat\<close> when that is set and the fallback object literal
  otherwise. Of either object the functions below read one member only,
  \<open>studentt.cdf\<close>; the fallback literal defines \<open>normal.pdf\<close>, \<open>normal.cdf\<close> and
  \<open>studentt.pdf\<close> and no \<open>studentt.cdf\<close>. A \<open>window.jStat\<close> is taken to have
  a member \<open>studentt\<close>, whose \<open>cdf\<close> is a function of two numbers or missing.
\<close>

datatype js_member = Undefined | Function "jsnum \<Rightarrow> jsnum \<Rightarrow> jsnum"

record JStat =
  studentt_cdf :: js_member

definition fallback_jStat :: JStat where
  "fallback_jStat = \<lparr> studentt_cdf = Undefined \<rparr>"

definition jStat :: "JStat option \<Rightarrow> JStat" where
  "jStat window_jStat = (case window_jStat of Some j \<Rightarrow> j | None \<Rightarrow> fallback_jStat)"

fun ToNumber :: "js_member \<Rightarrow> jsnum" where
  \<comment> \<open>neither \<open>undefined\<close> nor a function converts to a number\<close>
  "ToNumber Undefined = NaN"
| "ToNumber (Function f) = NaN"

subsection \<open>erf\<close>

definition erf :: "jsnum \<Rightarrow> jsnum" where
  "erf x0 =
    (let a1 = binary64 0.254829592;
         a2 = js_neg (binary64 0.284496736);
         a3 = binary64 1.421413741;
         a4 = js_neg (binary64 1.453152027);
         a5 = binary64 1.061405429;
         p = binary64 0.3275911;
         sign = (if js_lt x0 (Fin 0) then Fin (- 1) else Fin 1);
         x = Math_abs x0;
         t = fl_div (Fin 1) (fl_add (Fin 1) (fl_mul p x));
         y = fl_sub (Fin 1)
               (fl_mul
                 (fl_mul
                   (fl_add (fl_mul (fl_add (fl_mul (fl_add (fl_mul
                      (fl_add (fl_mul a5 t) a4) t) a3) t) a2) t) a1)
                   t)
                 (fl_exp (fl_mul (js_neg x) x)))
     in fl_mul sign y)"

subsection \<open>stats\<close>

definition stats_mean :: "jsnum list \<Rightarrow> jsnum" where
  "stats_mean data = fl_div (foldl (\<lambda>sum val. fl_add sum val) (Fin 0) data) (len data)"

definition stats_variance :: "jsnum list \<Rightarrow> jsnum" where
  "stats_variance data =
    (let mean = stats_mean data
     in fl_div (foldl (\<lambda>sum val. fl_add sum (fl_pow (fl_sub val mean) 2)) (Fin 0) data)
          (fl_sub (len data) (Fin 1)))"

definition stats_standardDeviation :: "jsnum list \<Rightarrow> jsnum" where
  "stats_standardDeviation data = fl_sqrt (stats_variance data)"

text \<open>
  A plain object whose keys are numbers: its own properties in creation order. A number
  key is stored under its decimal string and read back with \<open>Number\<close>; the two
  conversions are inverse to each other, so the number stands for the key.
  \<open>Object.keys\<close> and \<open>Object.values\<close> list the array-index keys (the integers from
  \<open>0\<close> to \<open>2\<^sup>3\<^sup>2 - 2\<close>) first, in ascending order, then the other keys in creation
  order.
\<close>

type_synonym js_object = "(jsnum \<times> jsnum) list"

definition is_array_index :: "jsnum \<Rightarrow> bool" where
  "is_array_index k =
    (case k of Fin r \<Rightarrow> r = of_int \<lfloor>r\<rfloor> \<and> 0 \<le> r \<and> r < 4294967295 | _ \<Rightarrow> False)"

definition array_index :: "jsnum \<Rightarrow> nat" where
  "array_index k = (case k of Fin r \<Rightarrow> nat \<lfloor>r\<rfloor> | _ \<Rightarrow> 0)"

definition Object_entries :: "js_object \<Rightarrow> (jsnum \<times> jsnum) list" where
  "Object_entries obj =
     sort_key (\<lambda>e. array_index (fst e)) (filter (\<lambda>e. is_array_index (fst e)) obj)
     @ filter (\<lambda>e. \<not> is_array_index (fst e)) obj"

definition Object_keys :: "js_object \<Rightarrow> jsnum list" where
  "Object_keys obj = map fst (Object_entries obj)"

definition Object_values :: "js_object \<Rightarrow> jsnum list" where
  "Object_values obj = map snd (Object_entries obj)"

definition or_zero :: "jsnum option \<Rightarrow> jsnum" where
  \<comment> \<open>\<open>v || 0\<close>, where \<open>None\<close> is \<open>undefined\<close>\<close>
  "or_zero v = (case v of None \<Rightarrow> Fin 0 | Some n \<Rightarrow> if truthy n then n else Fin 0)"

definition count_num :: "js_object \<Rightarrow> jsnum \<Rightarrow> js_object" where
  \<comment> \<open>\<open>frequency[num] = (frequency[num] || 0) + 1\<close>\<close>
  "count_num frequency num =
     AList.update num (js_add (or_zero (map_of frequency num)) (Fin 1)) frequency"

definition stats_mode :: "jsnum list \<Rightarrow> jsnum list" where
  "stats_mode data =
    (let frequency = foldl count_num [] data;
         maxFreq = Math_max (Object_values frequency)
     in filter (\<lambda>key. case map_of frequency key of
                          None \<Rightarrow> False
                        | Some v \<Rightarrow> js_eq v maxFreq)
          (Object_keys frequency))"

text \<open>
  A histogram bin. The label of a bin (its bounds printed with \<open>toFixed(1)\<close>) is left
  out: no count depends on it. \<open>binCounts\<close> is an array of \<open>bins\<close> counters; a
  write \<open>binCounts[k]++\<close> at a key that is not an index below \<open>bins\<close> (\<open>NaN\<close>, a
  negative number, an index past the end) adds a property that the returned bins,
  which are read at the indices below \<open>bins\<close>, never show.
\<close>

record HistogramBin =
  count :: nat
  frequency :: jsnum

definition increment :: "nat list \<Rightarrow> jsnum \<Rightarrow> nat list" where
  \<comment> \<open>\<open>binCounts[binIndex]++\<close>\<close>
  "increment binCounts binIndex =
    (case binIndex of
       Fin r \<Rightarrow>
         if r = of_int \<lfloor>r\<rfloor> \<and> 0 \<le> r \<and> r < real (length binCounts)
         then binCounts[nat \<lfloor>r\<rfloor> := Suc (binCounts ! nat \<lfloor>r\<rfloor>)]
         else binCounts
     | _ \<Rightarrow> binCounts)"

definition count_value :: "jsnum \<Rightarrow> jsnum \<Rightarrow> nat \<Rightarrow> nat list \<Rightarrow> jsnum \<Rightarrow> nat list" where
  "count_value minimum binWidth bins binCounts value =
    (let binIndex = Math_floor (js_div (js_sub value minimum) binWidth);
         binIndex = (if js_eq binIndex (Fin (real bins))
                     then js_sub (Fin (real bins)) (Fin 1) else binIndex)
     in increment binCounts binIndex)"

definition stats_histogram :: "jsnum list \<Rightarrow> nat \<Rightarrow> HistogramBin list" where
  "stats_histogram data bins =
    (let min = Math_min data;
         max = Math_max data;
         binWidth = js_div (js_sub max min) (Fin (real bins));
         binCounts = foldl (count_value min binWidth bins) (replicate bins 0) data
     in map (\<lambda>c. \<lparr> count = c, frequency = js_div (Fin (real c)) (len data) \<rparr>) binCounts)"

subsection \<open>hypothesisTests\<close>

record TTestResult =
  tStatistic :: jsnum
  degreesOfFreedom :: jsnum
  pValue :: jsnum
  criticalValue :: jsnum
  reject :: bool
  alpha :: jsnum

definition oneSampleTTest ::
  "JStat \<Rightarrow> jsnum list \<Rightarrow> jsnum \<Rightarrow> jsnum \<Rightarrow> js_error + TTestResult" where
  "oneSampleTTest jstat data mu0 alpha' =
    (let n = len data;
         mean = stats_mean data;
         std = stats_standardDeviation data;
         tStat = js_div (js_sub mean mu0) (js_div std (Math_sqrt n));
         df = js_sub n (Fin 1);
         tCritical = Fin 1.96;
         \<comment> \<open>\<open>2 * (1 - jStat.studentt.cdf ? jStat.studentt.cdf(Math.abs(tStat), df) : 0.5)\<close>:
             the conditional binds weaker than the subtraction\<close>
         chosen =
           (if truthy (js_sub (Fin 1) (ToNumber (studentt_cdf jstat)))
            then (case studentt_cdf jstat of
                    Function cdf \<Rightarrow> Inr (cdf (Math_abs tStat) df)
                  | Undefined \<Rightarrow> Inl (TypeError ''jStat.studentt.cdf is not a function''))
            else Inr (Fin 0.5))
     in case chosen of
          Inl e \<Rightarrow> Inl e
        | Inr c \<Rightarrow>
            Inr \<lparr> tStatistic = tStat,
                  degreesOfFreedom = df,
                  pValue = js_mul (Fin 2) c,
                  criticalValue = tCritical,
                  reject = js_gt (Math_abs tStat) tCritical,
                  alpha = alpha' \<rparr>)"

record ChiSquareResult =
  chiSquareStatistic :: jsnum
  degreesOfFreedom :: jsnum
  criticalValue :: jsnum
  reject :: bool
  alpha :: jsnum

definition chiSquareGoodnessOfFit ::
  "jsnum list \<Rightarrow> jsnum list \<Rightarrow> jsnum \<Rightarrow> js_error + ChiSquareResult" where
  "chiSquareGoodnessOfFit observed expected alpha' =
    (if length observed \<noteq> length expected
     then Inl (Error ''Observed and expected arrays must have the same length'')
     else
       let chiSquare =
             foldl (\<lambda>chiSquare (observed_i, expected_i).
                      if js_gt expected_i (Fin 0)
                      then fl_add chiSquare
                             (fl_div (fl_pow (fl_sub observed_i expected_i) 2) expected_i)
                      else chiSquare)
               (Fin 0) (zip observed expected);
           df = fl_sub (len observed) (Fin 1);
           criticalValue = binary64 7.815
       in Inr \<lparr> chiSquareStatistic = chiSquare,
                 degreesOfFreedom = df,
                 criticalValue = criticalValue,
                 reject = js_gt chiSquare criticalValue,
                 alpha = alpha' \<rparr>)"

section \<open>statisticalExtended.ts\<close>

subsection \<open>Two-sample and paired t-tests\<close>

text \<open>
  The results extend the record of the one-sample test by the fields the two tests add.
  The field \<open>interpretation\<close> of the source is \<open>interpretationText\<close> here, the
  former being a keyword of Isabelle.
\<close>

record PairedTTestResult = TTestResult +
  testName :: string
  meanDifference :: jsnum
  interpretationText :: string

record TwoSampleTTestResult = PairedTTestResult +
  sample1Mean :: jsnum
  sample2Mean :: jsnum

definition twoSampleTTest ::
  "JStat \<Rightarrow> jsnum list \<Rightarrow> jsnum list \<Rightarrow> jsnum \<Rightarrow> bool \<Rightarrow> TwoSampleTTestResult" where
  "twoSampleTTest jstat sample1 sample2 alpha' equalVariance =
    (let n1 = len sample1;
         n2 = len sample2;
         mean1 = stats_mean sample1;
         mean2 = stats_mean sample2;
         var1 = stats_variance sample1;
         var2 = stats_variance sample2;
         (tStat, df) =
           (if equalVariance
            then
              let pooledVariance =
                    fl_div (fl_add (fl_mul (fl_sub n1 (Fin 1)) var1)
                                   (fl_mul (fl_sub n2 (Fin 1)) var2))
                      (fl_sub (fl_add n1 n2) (Fin 2));
                  standardError =
                    fl_sqrt (fl_mul pooledVariance
                               (fl_add (fl_div (Fin 1) n1) (fl_div (Fin 1) n2)))
              in (fl_div (fl_sub mean1 mean2) standardError, fl_sub (fl_add n1 n2) (Fin 2))
            else
              let standardError = fl_sqrt (fl_add (fl_div var1 n1) (fl_div var2 n2))
              in (fl_div (fl_sub mean1 mean2) standardError,
                  fl_div (fl_pow (fl_add (fl_div var1 n1) (fl_div var2 n2)) 2)
                    (fl_add (fl_div (fl_pow (fl_div var1 n1) 2) (fl_sub n1 (Fin 1)))
                            (fl_div (fl_pow (fl_div var2 n2) 2) (fl_sub n2 (Fin 1))))));
         \<comment> \<open>\<open>2 * (1 - (jStat?.studentt?.cdf?.(Math.abs(tStat), df) ?? 0.5))\<close>\<close>
         pValue = fl_mul (Fin 2)
                    (fl_sub (Fin 1)
                       (case studentt_cdf jstat of
                          Function cdf \<Rightarrow> cdf (Math_abs tStat) df
                        | Undefined \<Rightarrow> Fin 0.5));
         criticalValue = binary64 1.96
     in \<lparr> tStatistic = tStat,
          degreesOfFreedom = df,
          pValue = pValue,
          criticalValue = criticalValue,
          reject = js_lt pValue alpha',
          alpha = alpha',
          testName = (if equalVariance then ''Two-Sample t-Test (Equal Variance)''
                      else ''Welch's t-Test (Unequal Variance)''),
          meanDifference = fl_sub mean1 mean2,
          interpretationText =
            (if js_lt pValue alpha'
             then ''Reject H0: The means are significantly different''
             else ''Fail to reject H0: No significant difference in means''),
          sample1Mean = mean1,
          sample2Mean = mean2 \<rparr>)"

definition pairedTTest ::
  "JStat \<Rightarrow> jsnum list \<Rightarrow> jsnum list \<Rightarrow> jsnum \<Rightarrow> js_error + PairedTTestResult" where
  "pairedTTest jstat before after alpha' =
    (if length before \<noteq> length after
     then Inl (Error ''Paired samples must have equal length'')
     else
       let differences = map (\<lambda>(val, after_idx). js_sub after_idx val) (zip before after);
           n = len differences;
           meanDiff = stats_mean differences;
           stdDiff = stats_standardDeviation differences;
           tStat = js_div meanDiff (js_div stdDiff (Math_sqrt n));
           df = js_sub n (Fin 1);
           pValue = js_mul (Fin 2)
                      (js_sub (Fin 1)
                         (case studentt_cdf jstat of
                            Function cdf \<Rightarrow> cdf (Math_abs tStat) df
                          | Undefined \<Rightarrow> Fin 0.5));
           criticalValue = Fin 1.96
       in Inr \<lparr> tStatistic = tStat,
                 degreesOfFreedom = df,
                 pValue = pValue,
                 criticalValue = criticalValue,
                 reject = js_lt pValue alpha',
                 alpha = alpha',
                 testName = ''Paired t-Test'',
                 meanDifference = meanDiff,
                 interpretationText =
                   (if js_lt pValue alpha'
                    then ''Reject H0: Significant difference between paired observations''
                    else ''Fail to reject H0: No significant difference between pairs'') \<rparr>)"

subsection \<open>One-way ANOVA\<close>

record AnovaResult =
  fStatistic :: jsnum
  testName :: string
  dfBetween :: jsnum
  dfWithin :: jsnum
  dfTotal :: jsnum
  sumOfSquaresBetween :: jsnum
  sumOfSquaresWithin :: jsnum
  meanSquareBetween :: jsnum
  meanSquareWithin :: jsnum
  pValue :: jsnum
  criticalValue :: jsnum
  reject :: bool
  alpha :: jsnum
  interpretationText :: string

definition oneWayANOVA :: "jsnum list list \<Rightarrow> jsnum \<Rightarrow> AnovaResult" where
  "oneWayANOVA groups alpha' =
    (let k = len groups;
         allData = concat groups;
         N = len allData;
         grandMean = stats_mean allData;
         ssb = foldl (\<lambda>ssb group.
                        let groupMean = stats_mean group
                        in js_add ssb (js_mul (len group)
                                               (Math_pow (js_sub groupMean grandMean) 2)))
                 (Fin 0) groups;
         ssw = foldl (\<lambda>ssw group.
                        let groupMean = stats_mean group
                        in foldl (\<lambda>ssw value.
                                    js_add ssw (Math_pow (js_sub value groupMean) 2))
                             ssw group)
                 (Fin 0) groups;
         dfBetween = js_sub k (Fin 1);
         dfWithin = js_sub N k;
         dfTotal = js_sub N (Fin 1);
         msb = js_div ssb dfBetween;
         msw = js_div ssw dfWithin;
         fStat = js_div msb msw;
         fCritical = Fin 3.0;
         pValue = (if js_gt fStat fCritical then Fin 0.01 else Fin 0.1)
     in \<lparr> fStatistic = fStat,
          testName = ''One-Way ANOVA'',
          dfBetween = dfBetween,
          dfWithin = dfWithin,
          dfTotal = dfTotal,
          sumOfSquaresBetween = ssb,
          sumOfSquaresWithin = ssw,
          meanSquareBetween = msb,
          meanSquareWithin = msw,
          pValue = pValue,
          criticalValue = fCritical,
          reject = js_gt fStat fCritical,
          alpha = alpha',
          interpretationText =
            (if js_gt fStat fCritical
             then ''Reject H0: At least one group mean is significantly different''
             else ''Fail to reject H0: No significant difference among group means'') \<rparr>)"

subsection \<open>Confidence interval for the mean\<close>

text \<open>
  The interval record, without its sentence of interpretation (the bounds printed
  with \<open>toFixed\<close>), which no number of the record depends on. The locals \<open>alpha\<close>
  and \<open>df\<close>, which the source computes and never reads, are left out.
\<close>

record IntervalResult =
  mean :: jsnum
  confidenceLevel :: jsnum
  lowerBound :: jsnum
  upperBound :: jsnum
  marginOfError :: jsnum
  standardError :: jsnum

definition confidenceIntervalMean :: "jsnum list \<Rightarrow> jsnum \<Rightarrow> IntervalResult" where
  "confidenceIntervalMean data confidenceLevel' =
    (let n = len data;
         mean = stats_mean data;
         std = stats_standardDeviation data;
         tCritical = (if js_eq confidenceLevel' (binary64 0.95) then binary64 1.96
                      else if js_eq confidenceLevel' (binary64 0.99) then binary64 2.576
                      else binary64 1.645);
         marginOfError = fl_mul tCritical (fl_div std (fl_sqrt n));
         lowerBound = fl_sub mean marginOfError;
         upperBound = fl_add mean marginOfError
     in \<lparr> mean = mean,
          confidenceLevel = confidenceLevel',
          lowerBound = lowerBound,
          upperBound = upperBound,
          marginOfError = marginOfError,
          standardError = fl_div std (fl_sqrt n) \<rparr>)"

subsection \<open>Coin flip simulation\<close>

text \<open>
  \<open>numFlips\<close> is a count of flips, a natural number, and so are the counters of the
  loop; \<open>Math.floor(numFlips / 100)\<close> is then \<open>numFlips div 100\<close>. The random source
  is a parameter: \<open>random i\<close> is what the call of \<open>Math.random()\<close> in iteration \<open>i\<close>
  returns.
\<close>

record Checkpoint =
  flip :: nat
  headsRatio :: jsnum

record CoinFlipResult =
  numFlips :: nat
  heads :: nat
  tails :: nat
  headsRatio :: jsnum
  tailsRatio :: jsnum
  results :: "string list"
  cumulativeProportions :: "Checkpoint list"

function coinFlipLoop ::
  "nat \<Rightarrow> jsnum \<Rightarrow> (nat \<Rightarrow> real) \<Rightarrow> nat \<Rightarrow> nat \<Rightarrow> nat \<Rightarrow> string list \<Rightarrow> Checkpoint list
     \<Rightarrow> nat \<times> nat \<times> string list \<times> Checkpoint list" where
  "coinFlipLoop numFlips' probability random i heads' tails' results' cumulative =
    (if i < numFlips'
     then
       let flip' = (if js_lt (Fin (random i)) probability then ''H'' else ''T'');
           results' = results' @ [flip'];
           heads' = (if flip' = ''H'' then heads' + 1 else heads');
           tails' = (if flip' = ''H'' then tails' else tails' + 1);
           cumulative =
             (if (i + 1) mod max 1 (numFlips' div 100) = 0 \<or> i = numFlips' - 1
              then cumulative @
                     [\<lparr> flip = i + 1,
                        headsRatio = js_div (Fin (real heads')) (Fin (real (i + 1))) \<rparr>]
              else cumulative)
       in coinFlipLoop numFlips' probability random (i + 1) heads' tails' results' cumulative
     else (heads', tails', results', cumulative))"
  by pat_completeness auto
termination
  by (relation "measure (\<lambda>(numFlips', probability, random, i, st). numFlips' - i)") auto

definition coinFlipSimulation :: "(nat \<Rightarrow> real) \<Rightarrow> nat \<Rightarrow> jsnum \<Rightarrow> CoinFlipResult" where
  "coinFlipSimulation random numFlips' probability =
    (case coinFlipLoop numFlips' probability random 0 0 0 [] [] of
       (heads', tails', results', cumulative) \<Rightarrow>
         \<lparr> numFlips = numFlips',
           heads = heads',
           tails = tails',
           headsRatio = js_div (Fin (real heads')) (Fin (real numFlips')),
           tailsRatio = js_div (Fin (real tails')) (Fin (real numFlips')),
           results = take 100 results',
           cumulativeProportions = cumulative \<rparr>)"

section \<open>Auxiliary notions\<close>

text \<open>
  Notions that serve to state what the functions above return; none of them is part of
  the program. A computed number is a binary64 number, an infinity or \<open>NaN\<close>
  (\<open>is_double\<close>); \<open>at_least q\<close> holds of the numbers from \<open>q\<close> up to \<open>Infinity\<close>,
  and \<open>is_nonneg\<close> is \<open>at_least 0\<close>.
\<close>

definition is_double :: "jsnum \<Rightarrow> bool" where
  "is_double v = (case v of Fin c \<Rightarrow> c \<in> doubles | _ \<Rightarrow> True)"

definition at_least :: "real \<Rightarrow> jsnum \<Rightarrow> bool" where
  "at_least q v = (case v of Fin c \<Rightarrow> q \<le> c | PInf \<Rightarrow> True | _ \<Rightarrow> False)"

definition is_nonneg :: "jsnum \<Rightarrow> bool" where
  "is_nonneg v = (case v of Fin c \<Rightarrow> 0 \<le> c | PInf \<Rightarrow> True | _ \<Rightarrow> False)"

text \<open>
  The value \<open>y\<close> that \<open>erf\<close> computes from the magnitude \<open>x\<close> of its argument.
\<close>

definition erf_magnitude :: "jsnum \<Rightarrow> jsnum" where
  "erf_magnitude x =
    (let a1 = binary64 0.254829592;
         a2 = js_neg (binary64 0.284496736);
         a3 = binary64 1.421413741;
         a4 = js_neg (binary64 1.453152027);
         a5 = binary64 1.061405429;
         p = binary64 0.3275911;
         t = fl_div (Fin 1) (fl_add (Fin 1) (fl_mul p x))
     in fl_sub (Fin 1)
          (fl_mul
            (fl_mul
              (fl_add (fl_mul (fl_add (fl_mul (fl_add (fl_mul
                 (fl_add (fl_mul a5 t) a4) t) a3) t) a2) t) a1)
              t)
            (fl_exp (fl_mul (js_neg x) x))))"

text \<open>
  The standard error that \<open>twoSampleTTest\<close> computes from the pooled variance in its
  equal-variance branch, as a function of the two samples.
\<close>

definition pooledStandardError :: "jsnum list \<Rightarrow> jsnum list \<Rightarrow> jsnum" where
  "pooledStandardError sample1 sample2 =
     fl_sqrt
       (fl_mul
          (fl_div (fl_add (fl_mul (fl_sub (len sample1) (Fin 1)) (stats_variance sample1))
                          (fl_mul (fl_sub (len sample2) (Fin 1)) (stats_variance sample2)))
             (fl_sub (fl_add (len sample1) (len sample2)) (Fin 2)))
          (fl_add (fl_div (Fin 1) (len sample1)) (fl_div (Fin 1) (len sample2))))"

text \<open>
  What a loaded \<open>frequency\<close> object holds: every key once, each with the number of
  times it was counted.
\<close>

definition counts_of :: "js_object \<Rightarrow> (jsnum \<Rightarrow> nat) \<Rightarrow> bool" where
  "counts_of fr c \<longleftrightarrow>
     distinct (map fst fr) \<and>
     (\<forall>k. map_of fr k = (if c k = 0 then None else Some (Fin (real (c k)))))"

text \<open>
  The outcome of flip \<open>i\<close> of the coin, and the flips after which the loop records a
  checkpoint (numbered from one, as the \<open>flip\<close> field is).
\<close>

definition flipAt :: "jsnum \<Rightarrow> (nat \<Rightarrow> real) \<Rightarrow> nat \<Rightarrow> string" where
  "flipAt p u i = (if js_lt (Fin (u i)) p then ''H'' else ''T'')"

definition isCheckpoint :: "nat \<Rightarrow> nat \<Rightarrow> bool" where
  "isCheckpoint n j = (j mod max 1 (n div 100) = 0 \<or> j = n)"

section \<open>Properties\<close>

subsection \<open>Arithmetic on finite numbers\<close>

lemma Math_pow_Fin [simp]: "Math_pow (Fin a) n = Fin (a ^ n)"
  by (simp add: Math_pow_def)

lemma js_sub_Fin [simp]: "js_sub (Fin a) (Fin b) = Fin (a - b)"
  by (simp add: js_sub_def)

lemma js_le_Fin [simp]: "js_le (Fin a) (Fin b) = (a \<le> b)"
  by (auto simp: js_le_def js_eq_def)

lemma js_gt_Fin [simp]: "js_gt (Fin a) (Fin b) = (b < a)"
  by (simp add: js_gt_def)

subsection \<open>Rounding\<close>

lemma finite_doubles: "finite doubles"
  by (simp add: doubles_def)

lemma finite_grid: "finite grid"
  by (simp add: grid_def finite_doubles)

lemma doublesI:
  "\<bar>m\<bar> < 2 ^ 53 \<Longrightarrow> - 1074 \<le> e \<Longrightarrow> e \<le> 971 \<Longrightarrow> real_of_int m * 2 powi e \<in> doubles"
  unfolding doubles_def by (rule image_eqI [where x = "(m, e)"]) auto

lemma doubles_abs_less:
  assumes "d \<in> doubles"
  shows "\<bar>d\<bar> < 2 ^ 1024"
proof -
  from assms obtain m e where d: "d = real_of_int m * 2 powi e"
    and m: "\<bar>m\<bar> \<le> 2 ^ 53 - 1" and e: "e \<le> 971"
    by (auto simp: doubles_def)
  have "(2::real) powi e \<le> 2 powi 971"
    using e by (intro power_int_increasing) simp_all
  then have p: "(2::real) powi e \<le> 2 ^ 971" by simp
  from m have "real_of_int \<bar>m\<bar> \<le> real_of_int (2 ^ 53 - 1)"
    by (rule of_int_le_iff [THEN iffD2])
  then have m': "\<bar>real_of_int m\<bar> \<le> 2 ^ 53 - 1" by simp
  have "\<bar>d\<bar> = \<bar>real_of_int m\<bar> * 2 powi e" by (simp add: d abs_mult)
  also have "\<dots> \<le> (2 ^ 53 - 1) * 2 ^ 971"
    using m' p by (intro mult_mono) simp_all
  also have "\<dots> < (2::real) ^ 53 * 2 ^ 971"
    by (intro mult_strict_right_mono) simp_all
  also have "\<dots> = 2 ^ 1024" by (simp add: power_add [symmetric])
  finally show ?thesis .
qed

lemma doubles_uminus: "d \<in> doubles \<Longrightarrow> - d \<in> doubles"
proof -
  assume "d \<in> doubles"
  then obtain m e where d: "d = real_of_int m * 2 powi e"
    and m: "\<bar>m\<bar> < 2 ^ 53" and e: "- 1074 \<le> e" "e \<le> 971"
    by (auto simp: doubles_def)
  have "- d = real_of_int (- m) * 2 powi e" by (simp add: d)
  moreover have "\<bar>- m\<bar> < 2 ^ 53" using m by simp
  ultimately show ?thesis using doublesI [OF _ e] by metis
qed

lemma zero_in_doubles [simp]: "0 \<in> doubles"
  using doublesI [of 0 0] by simp


lemma round_down_props:
  assumes "- (2 ^ 1024) \<le> x"
  shows "round_down x \<in> grid" and "round_down x \<le> x"
    and "\<And>d. d \<in> grid \<Longrightarrow> d \<le> x \<Longrightarrow> d \<le> round_down x"
proof -
  let ?S = "{d \<in> grid. d \<le> x}"
  have fin: "finite ?S" using finite_grid by simp
  have ne: "?S \<noteq> {}" using assms by (auto simp: grid_def)
  from Max_in [OF fin ne] show "round_down x \<in> grid" and "round_down x \<le> x"
    by (simp_all add: round_down_def)
  show "d \<le> round_down x" if "d \<in> grid" "d \<le> x" for d
    unfolding round_down_def using that fin by (intro Max_ge) simp_all
qed

lemma round_up_props:
  assumes "x \<le> 2 ^ 1024"
  shows "round_up x \<in> grid" and "x \<le> round_up x"
    and "\<And>d. d \<in> grid \<Longrightarrow> x \<le> d \<Longrightarrow> round_up x \<le> d"
proof -
  let ?S = "{d \<in> grid. x \<le> d}"
  have fin: "finite ?S" using finite_grid by simp
  have ne: "?S \<noteq> {}" using assms by (auto simp: grid_def)
  from Min_in [OF fin ne] show "round_up x \<in> grid" and "x \<le> round_up x"
    by (simp_all add: round_up_def)
  show "round_up x \<le> d" if "d \<in> grid" "x \<le> d" for d
    unfolding round_up_def using that fin by (intro Min_le) simp_all
qed

lemma nearest_even_cases:
  "nearest_even x = round_down x \<or> nearest_even x = round_up x"
  by (simp add: nearest_even_def Let_def)

lemma nearest_even_grid:
  assumes "x \<in> grid"
  shows "nearest_even x = x"
proof -
  from assms have b: "- (2 ^ 1024) \<le> x" "x \<le> 2 ^ 1024"
    using doubles_abs_less [of x] by (auto simp: grid_def)
  have "x \<le> round_down x" using round_down_props(3) [OF b(1) assms] by simp
  with round_down_props(2) [OF b(1)] have lo: "round_down x = x" by simp
  have "round_up x \<le> x" using round_up_props(3) [OF b(2) assms] by simp
  with round_up_props(2) [OF b(2)] have hi: "round_up x = x" by simp
  show ?thesis using nearest_even_cases [of x] lo hi by auto
qed

lemma nearest_even_bounds:
  assumes "- (2 ^ 1024) \<le> x" and "x \<le> 2 ^ 1024"
  shows "nearest_even x \<in> grid"
    and "\<And>d. d \<in> grid \<Longrightarrow> d \<le> x \<Longrightarrow> d \<le> nearest_even x"
    and "\<And>d. d \<in> grid \<Longrightarrow> x \<le> d \<Longrightarrow> nearest_even x \<le> d"
proof -
  note lo = round_down_props [OF assms(1)] and hi = round_up_props [OF assms(2)]
  show "nearest_even x \<in> grid"
    using nearest_even_cases [of x] lo(1) hi(1) by auto
  show "d \<le> nearest_even x" if "d \<in> grid" "d \<le> x" for d
    using nearest_even_cases [of x] lo(3) [OF that] lo(2) hi(2) by auto
  show "nearest_even x \<le> d" if "d \<in> grid" "x \<le> d" for d
    using nearest_even_cases [of x] hi(3) [OF that] lo(2) hi(2) by auto
qed

text \<open>Exact on the doubles; between two doubles, a double between them.\<close>

lemma binary64_double:
  assumes "d \<in> doubles"
  shows "binary64 d = Fin d"
proof -
  from doubles_abs_less [OF assms] have b: "- (2 ^ 1024) < d" "d < 2 ^ 1024" by auto
  have "nearest_even d = d" using assms by (intro nearest_even_grid) (simp add: grid_def)
  with b show ?thesis by (simp add: binary64_def Let_def)
qed

lemma binary64_between:
  assumes l: "l \<in> doubles" and u: "u \<in> doubles" and x: "l \<le> x" "x \<le> u"
  shows "\<exists>c. binary64 x = Fin c \<and> c \<in> doubles \<and> l \<le> c \<and> c \<le> u"
proof -
  from doubles_abs_less [OF l] doubles_abs_less [OF u] x
  have b: "- (2 ^ 1024) < x" "x < 2 ^ 1024" by auto
  then have b': "- (2 ^ 1024) \<le> x" "x \<le> 2 ^ 1024" by auto
  define r where "r = nearest_even x"
  have lg: "l \<in> grid" and ug: "u \<in> grid" using l u by (simp_all add: grid_def)
  have r: "r \<in> grid" "l \<le> r" "r \<le> u"
    using nearest_even_bounds [OF b'] lg ug x by (auto simp: r_def)
  from r(2,3) doubles_abs_less [OF l] doubles_abs_less [OF u]
  have nb: "r \<noteq> 2 ^ 1024" "r \<noteq> - (2 ^ 1024)" by auto
  with r(1) have rd: "r \<in> doubles" by (simp add: grid_def)
  have "binary64 x = Fin r"
    using b nb by (simp add: binary64_def Let_def r_def)
  with rd r(2,3) show ?thesis by blast
qed

lemma binary64_range:
  assumes "binary64 x = Fin c"
  shows "c \<in> doubles"
proof -
  from assms have b: "- (2 ^ 1024) \<le> x" "x \<le> 2 ^ 1024"
    by (auto simp: binary64_def split: if_splits)
  from assms have c: "c = nearest_even x" "c \<noteq> 2 ^ 1024" "c \<noteq> - (2 ^ 1024)"
    by (auto simp: binary64_def Let_def split: if_splits)
  with nearest_even_bounds(1) [OF b] show ?thesis by (simp add: grid_def)
qed

lemma binary64_nonneg:
  assumes "0 \<le> x"
  shows "binary64 x = PInf \<or> (\<exists>c. binary64 x = Fin c \<and> 0 \<le> c \<and> c \<in> doubles)"
proof (cases "2 ^ 1024 \<le> x")
  case True
  then show ?thesis by (simp add: binary64_def)
next
  case False
  with assms have b: "- (2 ^ 1024) \<le> x" "x \<le> 2 ^ 1024" by auto
  have g0: "0 \<in> grid" by (simp add: grid_def)
  have r0: "0 \<le> nearest_even x" using nearest_even_bounds(2) [OF b g0 assms] .
  have rg: "nearest_even x \<in> grid" using nearest_even_bounds(1) [OF b] .
  show ?thesis
  proof (cases "nearest_even x = 2 ^ 1024")
    case True
    with False assms show ?thesis by (simp add: binary64_def Let_def)
  next
    case neq: False
    from r0 have "nearest_even x \<noteq> - (2 ^ 1024)" by auto
    with neq rg have "nearest_even x \<in> doubles" by (simp add: grid_def)
    moreover have "binary64 x = Fin (nearest_even x)"
      using False assms neq r0 by (auto simp: binary64_def Let_def)
    ultimately show ?thesis using r0 by blast
  qed
qed

lemma binary64_le_double:
  assumes d: "d \<in> doubles" and x: "x \<le> d"
  shows "binary64 x = NInf \<or> (\<exists>c. binary64 x = Fin c \<and> c \<le> d \<and> c \<in> doubles)"
proof (cases "x \<le> - (2 ^ 1024)")
  case True
  with doubles_abs_less [OF d] x show ?thesis by (simp add: binary64_def)
next
  case False
  from doubles_abs_less [OF d] x have lt: "x < 2 ^ 1024" by auto
  with False have b: "- (2 ^ 1024) \<le> x" "x \<le> 2 ^ 1024" by auto
  have dg: "d \<in> grid" using d by (simp add: grid_def)
  have rd: "nearest_even x \<le> d" using nearest_even_bounds(3) [OF b dg x] .
  have rg: "nearest_even x \<in> grid" using nearest_even_bounds(1) [OF b] .
  from rd doubles_abs_less [OF d] have n1: "nearest_even x \<noteq> 2 ^ 1024" by auto
  show ?thesis
  proof (cases "nearest_even x = - (2 ^ 1024)")
    case True
    with False lt show ?thesis by (simp add: binary64_def Let_def)
  next
    case neq: False
    with n1 rg have "nearest_even x \<in> doubles" by (simp add: grid_def)
    moreover have "binary64 x = Fin (nearest_even x)"
      using False lt n1 neq by (simp add: binary64_def Let_def)
    ultimately show ?thesis using rd by blast
  qed
qed

lemma binary64_ge_double:
  assumes d: "d \<in> doubles" and x: "d \<le> x"
  shows "binary64 x = PInf \<or> (\<exists>c. binary64 x = Fin c \<and> d \<le> c \<and> c \<in> doubles)"
proof (cases "2 ^ 1024 \<le> x")
  case True
  then show ?thesis by (simp add: binary64_def)
next
  case False
  from doubles_abs_less [OF d] x have gt: "- (2 ^ 1024) < x" by auto
  with False have b: "- (2 ^ 1024) \<le> x" "x \<le> 2 ^ 1024" by auto
  have dg: "d \<in> grid" using d by (simp add: grid_def)
  have rd: "d \<le> nearest_even x" using nearest_even_bounds(2) [OF b dg x] .
  have rg: "nearest_even x \<in> grid" using nearest_even_bounds(1) [OF b] .
  from rd doubles_abs_less [OF d] have n1: "nearest_even x \<noteq> - (2 ^ 1024)" by auto
  show ?thesis
  proof (cases "nearest_even x = 2 ^ 1024")
    case True
    with False gt show ?thesis by (simp add: binary64_def Let_def)
  next
    case neq: False
    with n1 rg have "nearest_even x \<in> doubles" by (simp add: grid_def)
    moreover have "binary64 x = Fin (nearest_even x)"
      using False gt n1 neq by (auto simp: binary64_def Let_def)
    ultimately show ?thesis using rd by blast
  qed
qed


lemma of_int_in_doubles: "\<bar>k\<bar> < 2 ^ 53 \<Longrightarrow> real_of_int k \<in> doubles"
  using doublesI [of k 0] by simp

lemma of_nat_in_doubles: "k < 2 ^ 53 \<Longrightarrow> real k \<in> doubles"
  using of_int_in_doubles [of "int k"] by simp

lemma power2_in_doubles:
  assumes "n \<le> 1023"
  shows "(2::real) ^ n \<in> doubles"
proof (cases "n \<le> 971")
  case True
  then show ?thesis using doublesI [of 1 "int n"] by simp
next
  case False
  with assms have le: "n - 971 \<le> 52" by simp
  have "(2::int) ^ (n - 971) \<le> 2 ^ 52" using le by (intro power_increasing) simp_all
  then have "\<bar>(2::int) ^ (n - 971)\<bar> < 2 ^ 53" by simp
  from doublesI [OF this, of 971]
  have "real_of_int (2 ^ (n - 971)) * 2 powi 971 \<in> doubles" by simp
  moreover have "(2::real) ^ (n - 971) * 2 ^ 971 = 2 ^ (n - 971 + 971)"
    by (rule power_add [symmetric])
  then have "real_of_int (2 ^ (n - 971)) * 2 powi 971 = 2 ^ n"
    using False by (simp del: power_numeral)
  ultimately show ?thesis by simp
qed

lemma half_in_doubles: "real_of_int k / 2 \<in> doubles" if "\<bar>k\<bar> < 2 ^ 53"
  using doublesI [OF that, of "- 1"] by (simp add: field_simps)

lemma quarter_in_doubles: "real_of_int k / 4 \<in> doubles" if "\<bar>k\<bar> < 2 ^ 53"
  using doublesI [OF that, of "- 2"] by (simp add: field_simps power_int_minus)

lemma binary64_0 [simp]: "binary64 0 = Fin 0"
  by (rule binary64_double) simp

lemma binary64_1 [simp]: "binary64 1 = Fin 1"
  using binary64_double [OF of_int_in_doubles [of 1]] by simp

lemma binary64_numeral [simp]:
  "numeral n < (2::int) ^ 53 \<Longrightarrow> binary64 (numeral n) = Fin (numeral n)"
  using binary64_double [OF of_int_in_doubles [of "numeral n"]] by simp

lemma binary64_neg_numeral [simp]:
  "numeral n < (2::int) ^ 53 \<Longrightarrow> binary64 (- numeral n) = Fin (- numeral n)"
  using binary64_double [OF of_int_in_doubles [of "- numeral n"]] by simp

lemma binary64_half [simp]: "binary64 (1 / 2) = Fin (1 / 2)"
  using binary64_double [OF half_in_doubles [of 1]] by simp

lemma binary64_numeral_half [simp]:
  "numeral n < (2::int) ^ 53 \<Longrightarrow> binary64 (numeral n / 2) = Fin (numeral n / 2)"
  using binary64_double [OF half_in_doubles [of "numeral n"]] by simp

lemma binary64_numeral_quarter [simp]:
  "numeral n < (2::int) ^ 53 \<Longrightarrow> binary64 (numeral n / 4) = Fin (numeral n / 4)"
  using binary64_double [OF quarter_in_doubles [of "numeral n"]] by simp

lemma binary64_overflow: "2 ^ 1024 \<le> x \<Longrightarrow> binary64 x = PInf"
  by (simp add: binary64_def)

lemma binary64_literal:
  assumes "1 \<le> x" and "x \<le> 3"
  shows "\<exists>t. binary64 x = Fin t \<and> 1 \<le> t"
proof -
  have l: "(1::real) \<in> doubles" using of_int_in_doubles [of 1] by simp
  have u: "(3::real) \<in> doubles" using of_int_in_doubles [of 3] by simp
  from binary64_between [OF l u assms] show ?thesis by blast
qed


lemma is_double_fl [simp]: "is_double (fl v)"
  by (cases v) (auto simp: is_double_def dest: binary64_range split: jsnum.splits)

lemma fl_double: "is_double v \<Longrightarrow> fl v = v"
  by (cases v) (simp_all add: is_double_def binary64_double)

lemma is_nonneg_binary64: "0 \<le> x \<Longrightarrow> is_nonneg (binary64 x)"
  using binary64_nonneg [of x] by (auto simp: is_nonneg_def)

lemma is_nonneg_fl: "is_nonneg v \<Longrightarrow> is_nonneg (fl v)"
  by (cases v) (simp_all add: is_nonneg_def is_nonneg_binary64 [unfolded is_nonneg_def])

lemma is_nonneg_fl_add: "is_nonneg a \<Longrightarrow> is_nonneg b \<Longrightarrow> is_nonneg (fl_add a b)"
  unfolding fl_add_def
  by (intro is_nonneg_fl) (cases a; cases b; simp add: is_nonneg_def)

lemma is_nonneg_fl_square: "a \<noteq> NaN \<Longrightarrow> is_nonneg (fl_pow a 2)"
  unfolding fl_pow_def
  by (intro is_nonneg_fl) (cases a; simp add: is_nonneg_def Math_pow_def)

lemma fl_sub_Fin_not_NaN: "fl_sub (Fin a) (Fin b) \<noteq> NaN"
  by (auto simp: fl_sub_def binary64_def Let_def)

lemma is_nonneg_fl_div: "is_nonneg a \<Longrightarrow> 0 < b \<Longrightarrow> is_nonneg (fl_div a (Fin b))"
  unfolding fl_div_def
  by (intro is_nonneg_fl) (cases a; simp add: is_nonneg_def)

lemma is_nonneg_fl_sqrt: "is_nonneg a \<Longrightarrow> is_nonneg (fl_sqrt a)"
  unfolding fl_sqrt_def
  by (intro is_nonneg_fl) (cases a; simp add: is_nonneg_def)

lemma is_nonneg_fl_mul: "0 < t \<Longrightarrow> is_nonneg a \<Longrightarrow> is_nonneg (fl_mul (Fin t) a)"
  unfolding fl_mul_def
  by (intro is_nonneg_fl) (cases a; simp add: is_nonneg_def inf_of_sign_def)

lemma binary64_minus_1 [simp]: "binary64 (- 1) = Fin (- 1)"
  using binary64_double [OF of_int_in_doubles [of "- 1"]] by simp

lemma is_double_binary64: "is_double (binary64 x)"
  using is_double_fl [of "Fin x"] by simp

lemma fl_mul_one: "is_double v \<Longrightarrow> fl_mul v (Fin 1) = v"
  by (cases v) (simp_all add: fl_mul_def is_double_def binary64_double inf_of_sign_def)

lemma binary64_not_NaN [simp]: "binary64 x \<noteq> NaN"
  by (simp add: binary64_def Let_def)

lemma inverse_power2_in_doubles: "k \<le> 1074 \<Longrightarrow> 1 / (2::real) ^ k \<in> doubles"
  using doublesI [of 1 "- int k"] by (simp add: power_int_minus field_simps)

lemma at_least_binary64: "d \<in> doubles \<Longrightarrow> d \<le> x \<Longrightarrow> at_least d (binary64 x)"
  using binary64_ge_double [of d x] by (auto simp: at_least_def)

lemma at_least_nonneg: "at_least q v \<Longrightarrow> 0 \<le> q \<Longrightarrow> is_nonneg v"
  by (cases v) (auto simp: at_least_def is_nonneg_def)

lemma at_least_fl_add1:
  "d \<in> doubles \<Longrightarrow> at_least d a \<Longrightarrow> is_nonneg b \<Longrightarrow> at_least d (fl_add a b)"
  by (cases a; cases b)
     (auto simp: fl_add_def is_nonneg_def at_least_def [of d "Fin _"] at_least_def [of d PInf]
           at_least_def [of d NInf] at_least_def [of d NaN] intro!: at_least_binary64)

lemma at_least_fl_add2:
  "d \<in> doubles \<Longrightarrow> is_nonneg a \<Longrightarrow> at_least d b \<Longrightarrow> at_least d (fl_add a b)"
  by (cases a; cases b)
     (auto simp: fl_add_def is_nonneg_def at_least_def [of d "Fin _"] at_least_def [of d PInf]
           at_least_def [of d NInf] at_least_def [of d NaN] intro!: at_least_binary64)

lemma at_least_fl_div:
  assumes d: "d \<in> doubles" and v: "at_least q v" and k: "0 < k" and b: "d * k \<le> q"
  shows "at_least d (fl_div v (Fin k))"
proof (cases v)
  case (Fin c)
  with v have "q \<le> c" by (simp add: at_least_def)
  with b have "d * k \<le> c" by simp
  with k have "d \<le> c / k" by (simp add: field_simps)
  from at_least_binary64 [OF d this] k show ?thesis by (simp add: Fin fl_div_def)
next
  case PInf
  with k show ?thesis by (simp add: fl_div_def at_least_def)
qed (use v in \<open>simp_all add: at_least_def\<close>)

lemma at_least_fl_mul:
  assumes d: "d \<in> doubles" and a: "at_least p a" and b: "at_least q b"
    and p: "0 < p" and q: "0 < q" and le: "d \<le> p * q"
  shows "at_least d (fl_mul a b)"
proof (cases a; cases b)
  fix x y assume xy: "a = Fin x" "b = Fin y"
  with a b have "p \<le> x" "q \<le> y" by (simp_all add: at_least_def)
  with p q have "p * q \<le> x * y" by (intro mult_mono) simp_all
  with le have "d \<le> x * y" by simp
  from at_least_binary64 [OF d this] show ?thesis by (simp add: xy fl_mul_def)
next
  fix x assume xy: "a = Fin x" "b = PInf"
  with a p have "0 < x" by (simp add: at_least_def)
  then show ?thesis by (simp add: xy fl_mul_def inf_of_sign_def at_least_def)
next
  fix y assume xy: "a = PInf" "b = Fin y"
  with b q have "0 < y" by (simp add: at_least_def)
  then show ?thesis by (simp add: xy fl_mul_def inf_of_sign_def at_least_def)
next
  assume "a = PInf" "b = PInf"
  then show ?thesis by (simp add: fl_mul_def at_least_def)
qed (use a b in \<open>simp_all add: at_least_def\<close>)

lemma at_least_fl_sqrt:
  assumes d: "d \<in> doubles" and v: "at_least q v" and d0: "0 \<le> d" and le: "d\<^sup>2 \<le> q"
  shows "at_least d (fl_sqrt v)"
proof (cases v)
  case (Fin c)
  with v le have c: "d\<^sup>2 \<le> c" by (simp add: at_least_def)
  then have "0 \<le> c" using zero_le_power2 [of d] by linarith
  moreover from c have "d \<le> sqrt c" by (rule real_le_rsqrt)
  ultimately show ?thesis
    using at_least_binary64 [OF d, of "sqrt c"] by (simp add: Fin fl_sqrt_def not_less)
next
  case PInf
  then show ?thesis by (simp add: fl_sqrt_def at_least_def)
qed (use v in \<open>simp_all add: at_least_def\<close>)

lemma dyadic40_in_doubles: "\<bar>k\<bar> < 2 ^ 53 \<Longrightarrow> real_of_int k / 2 ^ 40 \<in> doubles"
  using doublesI [of k "- 40"] by (simp add: power_int_minus field_simps)

lemma binary64_dyadic_between:
  assumes "\<bar>l\<bar> < 2 ^ 53" and "\<bar>u\<bar> < 2 ^ 53"
    and "real_of_int l / 2 ^ 40 \<le> x" and "x \<le> real_of_int u / 2 ^ 40"
  shows "\<exists>c. binary64 x = Fin c \<and> c \<in> doubles \<and>
             real_of_int l / 2 ^ 40 \<le> c \<and> c \<le> real_of_int u / 2 ^ 40"
  using binary64_between [OF dyadic40_in_doubles [OF assms(1)] dyadic40_in_doubles [OF assms(2)]
      assms(3,4)]
  by blast

lemma fl_mul_Fin_one: "s \<in> doubles \<Longrightarrow> fl_mul (Fin s) (Fin 1) = Fin s"
  by (simp add: fl_mul_def binary64_double)

lemma fl_mul_sign:
  assumes "is_double v"
  shows "fl_mul (Fin 1) v = v" and "fl_mul (Fin (- 1)) v = js_neg v"
  using assms
  by (cases v; simp add: fl_mul_def is_double_def binary64_double doubles_uminus
        inf_of_sign_def)+

subsection \<open>Mean and variance of a sample\<close>

lemma is_double_stats_mean: "is_double (stats_mean d)"
  by (simp add: stats_mean_def fl_div_def)

lemma squares_foldl_nonneg:
  "is_nonneg c \<Longrightarrow>
   is_nonneg (foldl (\<lambda>sum val. fl_add sum (fl_pow (fl_sub val (Fin m)) 2)) c (map Fin xs))"
proof (induction xs arbitrary: c)
  case Nil
  then show ?case by simp
next
  case (Cons x xs)
  have "is_nonneg (fl_pow (fl_sub (Fin x) (Fin m)) 2)"
    by (intro is_nonneg_fl_square fl_sub_Fin_not_NaN)
  with Cons.prems have "is_nonneg (fl_add c (fl_pow (fl_sub (Fin x) (Fin m)) 2))"
    by (rule is_nonneg_fl_add)
  then show ?case using Cons.IH by simp
qed

lemma length_minus_one:
  assumes "2 \<le> length xs" and "length xs < 2 ^ 32"
  shows "\<exists>k. fl_sub (len xs) (Fin 1) = Fin k \<and> 1 \<le> k"
proof -
  have l: "(1::real) \<in> doubles" using of_int_in_doubles [of 1] by simp
  have u: "(2::real) ^ 32 \<in> doubles" by (rule power2_in_doubles) simp
  from assms have "1 \<le> real (length xs) - 1" by simp
  moreover from assms(2) have "real (length xs) < 2 ^ 32"
    by (metis of_nat_less_iff of_nat_numeral of_nat_power)
  then have "real (length xs) - 1 \<le> 2 ^ 32" by simp
  ultimately obtain c where "binary64 (real (length xs) - 1) = Fin c" "1 \<le> c"
    using binary64_between [OF l u] by blast
  then show ?thesis by (simp add: fl_sub_def len_def)
qed

lemma sqrt_length:
  assumes "1 \<le> length xs" and "length xs < 2 ^ 32"
  shows "\<exists>c. fl_sqrt (len xs) = Fin c \<and> 1 \<le> c"
proof -
  have l: "(1::real) \<in> doubles" using of_int_in_doubles [of 1] by simp
  have u: "(2::real) ^ 16 \<in> doubles" by (rule power2_in_doubles) simp
  from assms have "1 \<le> sqrt (real (length xs))" by simp
  moreover from assms(2) have "real (length xs) < 2 ^ 32"
    by (metis of_nat_less_iff of_nat_numeral of_nat_power)
  then have "real (length xs) \<le> (2 ^ 16)\<^sup>2" by simp
  then have "sqrt (real (length xs)) \<le> sqrt ((2 ^ 16)\<^sup>2)"
    by (simp only: real_sqrt_le_iff)
  then have "sqrt (real (length xs)) \<le> 2 ^ 16"
    by (simp only: real_sqrt_abs) simp
  ultimately obtain c where "binary64 (sqrt (real (length xs))) = Fin c" "1 \<le> c"
    using binary64_between [OF l u] by blast
  then show ?thesis by (simp add: fl_sqrt_def len_def)
qed

lemma standardError_nonneg:
  assumes n: "2 \<le> length xs" "length xs < 2 ^ 32"
    and m: "stats_mean (map Fin xs) = Fin m"
  shows "is_nonneg (fl_div (stats_standardDeviation (map Fin xs)) (fl_sqrt (len (map Fin xs))))"
proof -
  obtain k where k: "fl_sub (len (map Fin xs)) (Fin 1) = Fin k" "1 \<le> k"
    using length_minus_one [of "map Fin xs"] n by auto
  obtain c where c: "fl_sqrt (len (map Fin xs)) = Fin c" "1 \<le> c"
    using sqrt_length [of "map Fin xs"] n by auto
  have "is_nonneg (foldl (\<lambda>sum val. fl_add sum (fl_pow (fl_sub val (Fin m)) 2)) (Fin 0)
                     (map Fin xs))"
    by (rule squares_foldl_nonneg) (simp add: is_nonneg_def)
  then have "is_nonneg (stats_variance (map Fin xs))"
    unfolding stats_variance_def Let_def m k using k(2) by (intro is_nonneg_fl_div) simp_all
  then have "is_nonneg (stats_standardDeviation (map Fin xs))"
    unfolding stats_standardDeviation_def by (rule is_nonneg_fl_sqrt)
  then show ?thesis
    unfolding c using c(2) by (intro is_nonneg_fl_div) simp_all
qed

lemma length_arith:
  assumes "2 \<le> length xs" and "length xs < 2 ^ 32"
  shows "fl_sub (len xs) (Fin 1) = Fin (real (length xs) - 1)"
    and "fl_sub (fl_add (len xs) (len xs)) (Fin 2) = Fin (2 * real (length xs) - 2)"
proof -
  have lt: "int (length xs) < 2 ^ 32" using assms(2) by (simp add: of_nat_less_iff [symmetric] del: of_nat_less_iff)
  have "real_of_int (int (length xs) - 1) \<in> doubles"
    using lt assms(1) by (intro of_int_in_doubles) simp
  then have "binary64 (real (length xs) - 1) = Fin (real (length xs) - 1)"
    using binary64_double [of "real (length xs) - 1"] by simp
  then show "fl_sub (len xs) (Fin 1) = Fin (real (length xs) - 1)"
    by (simp add: fl_sub_def len_def)
  have "real_of_int (2 * int (length xs)) \<in> doubles"
    using lt by (intro of_int_in_doubles) simp
  then have a: "binary64 (2 * real (length xs)) = Fin (2 * real (length xs))"
    using binary64_double [of "2 * real (length xs)"] by simp
  have "real_of_int (2 * int (length xs) - 2) \<in> doubles"
    using lt assms(1) by (intro of_int_in_doubles) simp
  then have s: "binary64 (2 * real (length xs) - 2) = Fin (2 * real (length xs) - 2)"
    using binary64_double [of "2 * real (length xs) - 2"] by simp
  show "fl_sub (fl_add (len xs) (len xs)) (Fin 2) = Fin (2 * real (length xs) - 2)"
    by (simp add: fl_sub_def fl_add_def len_def a s)
qed

subsection \<open>One-way ANOVA\<close>

text \<open>
  Claim C5. Whatever the groups are, \<open>oneWayANOVA\<close> returns the critical value
  \<open>3.0\<close>, rejects exactly when the F statistic is greater than \<open>3.0\<close>, reports the
  p-value \<open>0.01\<close> in that case and \<open>0.1\<close> otherwise, and returns the degrees of
  freedom \<open>k - 1\<close>, \<open>N - k\<close> and \<open>N - 1\<close> for \<open>k\<close> groups of \<open>N\<close> values in
  total. This holds in particular for the valid group lists (at least one group, none
  empty, \<open>N > k\<close>).
\<close>

theorem oneWayANOVA_coarse_policy:
  "AnovaResult.criticalValue (oneWayANOVA groups a) = Fin 3 \<and>
   AnovaResult.reject (oneWayANOVA groups a)
     = js_gt (fStatistic (oneWayANOVA groups a)) (Fin 3) \<and>
   AnovaResult.pValue (oneWayANOVA groups a)
     = (if js_gt (fStatistic (oneWayANOVA groups a)) (Fin 3) then Fin 0.01 else Fin 0.1) \<and>
   dfBetween (oneWayANOVA groups a) = Fin (real (length groups) - 1) \<and>
   dfWithin (oneWayANOVA groups a)
     = Fin (real (length (concat groups)) - real (length groups)) \<and>
   dfTotal (oneWayANOVA groups a) = Fin (real (length (concat groups)) - 1)"
  by (simp add: oneWayANOVA_def Let_def len_def)

theorem oneWayANOVA_coarse_policy_witness:
  "fStatistic (oneWayANOVA [[Fin 1, Fin 2], [Fin 3, Fin 5]] (Fin 0.05)) = Fin 5 \<and>
   AnovaResult.reject (oneWayANOVA [[Fin 1, Fin 2], [Fin 3, Fin 5]] (Fin 0.05)) \<and>
   AnovaResult.pValue (oneWayANOVA [[Fin 1, Fin 2], [Fin 3, Fin 5]] (Fin 0.05)) = Fin 0.01 \<and>
   dfBetween (oneWayANOVA [[Fin 1, Fin 2], [Fin 3, Fin 5]] (Fin 0.05)) = Fin 1 \<and>
   dfWithin (oneWayANOVA [[Fin 1, Fin 2], [Fin 3, Fin 5]] (Fin 0.05)) = Fin 2 \<and>
   dfTotal (oneWayANOVA [[Fin 1, Fin 2], [Fin 3, Fin 5]] (Fin 0.05)) = Fin 3"
proof -
  have f: "fStatistic (oneWayANOVA [[Fin 1, Fin 2], [Fin 3, Fin 5]] (Fin 0.05)) = Fin 5"
    by (simp add: oneWayANOVA_def Let_def len_def stats_mean_def fl_add_def fl_div_def
          power2_eq_square)
  show ?thesis
    using oneWayANOVA_coarse_policy [of "[[Fin 1, Fin 2], [Fin 3, Fin 5]]" "Fin 0.05"]
    unfolding f by (simp add: js_gt_def)
qed

subsection \<open>Paired t-test: the length check\<close>

text \<open>
  Claim C2. \<open>pairedTTest\<close> raises the error "Paired samples must have equal length"
  exactly when the two samples differ in length, so it never computes on a truncated
  input; on samples of equal length it returns a result whose degrees of freedom are
  the length of \<open>before\<close> minus one.
\<close>

theorem pairedTTest_length_check:
  "(length before \<noteq> length after \<longrightarrow>
      pairedTTest j before after a = Inl (Error ''Paired samples must have equal length'')) \<and>
   (length before = length after \<longrightarrow>
      (\<exists>r. pairedTTest j before after a = Inr r \<and>
           TTestResult.degreesOfFreedom r = Fin (real (length before) - 1)))"
  by (simp add: pairedTTest_def Let_def len_def)

theorem pairedTTest_length_check_witness:
  "pairedTTest (jStat None) [Fin 1, Fin 2, Fin 3] [Fin 2, Fin 4] (Fin 0.05)
     = Inl (Error ''Paired samples must have equal length'') \<and>
   (\<exists>r. pairedTTest (jStat None) [Fin 1, Fin 2] [Fin 2, Fin 4] (Fin 0.05) = Inr r \<and>
        TTestResult.degreesOfFreedom r = Fin 1)"
  using pairedTTest_length_check [of "[Fin 1, Fin 2, Fin 3]" "[Fin 2, Fin 4]" "jStat None" "Fin 0.05"]
        pairedTTest_length_check [of "[Fin 1, Fin 2]" "[Fin 2, Fin 4]" "jStat None" "Fin 0.05"]
  by simp

subsection \<open>The p-value of the t-tests\<close>

text \<open>
  Claim C1. The three t-tests report the p-value \<open>1\<close> whatever the data are.
  In \<open>oneSampleTTest\<close> the condition of the conditional expression is
  \<open>1 - jStat.studentt.cdf\<close>, which is \<open>NaN\<close> for the fallback object and for any
  \<open>window.jStat\<close> alike, so the branch \<open>0.5\<close> is taken, the function returns, and
  its reject flag is \<open>|tStatistic| > 1.96\<close>. In \<open>twoSampleTTest\<close> and
  \<open>pairedTTest\<close> (on samples of equal length) the fallback object, which is what
  \<open>jStat\<close> is when \<open>window.jStat\<close> is not set, has no \<open>studentt.cdf\<close>, so the
  p-value is \<open>2 * (1 - 0.5)\<close> and the test does not reject at any \<open>alpha \<le> 1\<close>.
\<close>

theorem t_tests_pValue_one:
  "(\<exists>r. oneSampleTTest (jStat w) data mu0 a = Inr r \<and>
        TTestResult.pValue r = Fin 1 \<and>
        TTestResult.reject r = js_gt (Math_abs (tStatistic r)) (Fin 1.96)) \<and>
   TTestResult.pValue (twoSampleTTest (jStat None) sample1 sample2 a equalVariance) = Fin 1 \<and>
   (js_le a (Fin 1) \<longrightarrow>
      \<not> TTestResult.reject (twoSampleTTest (jStat None) sample1 sample2 a equalVariance)) \<and>
   (length before = length after \<longrightarrow>
      (\<exists>r. pairedTTest (jStat None) before after a = Inr r \<and>
           TTestResult.pValue r = Fin 1 \<and>
           (js_le a (Fin 1) \<longrightarrow> \<not> TTestResult.reject r)))"
proof -
  have "ToNumber m = NaN" for m by (cases m) simp_all
  then have "\<not> truthy (js_sub (Fin 1) (ToNumber (studentt_cdf (jStat w))))"
    by (simp add: js_sub_def truthy_def)
  then have one: "\<exists>r. oneSampleTTest (jStat w) data mu0 a = Inr r \<and>
        TTestResult.pValue r = Fin 1 \<and>
        TTestResult.reject r = js_gt (Math_abs (tStatistic r)) (Fin 1.96)"
    by (simp add: oneSampleTTest_def Let_def)
  have two: "TTestResult.pValue (twoSampleTTest (jStat None) sample1 sample2 a equalVariance)
               = Fin 1 \<and>
      (js_le a (Fin 1) \<longrightarrow>
         \<not> TTestResult.reject (twoSampleTTest (jStat None) sample1 sample2 a equalVariance))"
    by (cases a)
      (simp_all add: twoSampleTTest_def Let_def jStat_def fallback_jStat_def split_def
         fl_mul_def fl_sub_def js_le_def js_eq_def)
  have paired: "length before = length after \<longrightarrow>
      (\<exists>r. pairedTTest (jStat None) before after a = Inr r \<and>
           TTestResult.pValue r = Fin 1 \<and>
           (js_le a (Fin 1) \<longrightarrow> \<not> TTestResult.reject r))"
    by (cases a)
      (simp_all add: pairedTTest_def Let_def jStat_def fallback_jStat_def split_def
         js_le_def js_eq_def)
  from one two paired show ?thesis by blast
qed

theorem t_tests_pValue_one_witness:
  "js_le (Fin 0.05) (Fin 1) \<and>
   (\<exists>r. oneSampleTTest (jStat None) [Fin 98, Fin 99, Fin 104] (Fin 100) (Fin 0.05) = Inr r \<and>
        TTestResult.pValue r = Fin 1) \<and>
   TTestResult.pValue
     (twoSampleTTest (jStat None) [Fin 1, Fin 2, Fin 3] [Fin 7, Fin 8, Fin 10] (Fin 0.05) True)
     = Fin 1 \<and>
   \<not> TTestResult.reject
     (twoSampleTTest (jStat None) [Fin 1, Fin 2, Fin 3] [Fin 7, Fin 8, Fin 10] (Fin 0.05) True) \<and>
   (\<exists>r. pairedTTest (jStat None) [Fin 1, Fin 2, Fin 3] [Fin 7, Fin 8, Fin 10] (Fin 0.05) = Inr r \<and>
        TTestResult.pValue r = Fin 1 \<and> \<not> TTestResult.reject r)"
  using t_tests_pValue_one [of None "[Fin 98, Fin 99, Fin 104]" "Fin 100" "Fin 0.05"
      "[Fin 1, Fin 2, Fin 3]" "[Fin 7, Fin 8, Fin 10]" True
      "[Fin 1, Fin 2, Fin 3]" "[Fin 7, Fin 8, Fin 10]"]
  by auto

subsection \<open>Two-sample t-test on one sample passed twice\<close>

lemma twoSample_pooled_tStatistic:
  "tStatistic (twoSampleTTest j s1 s2 a True)
     = fl_div (fl_sub (stats_mean s1) (stats_mean s2)) (pooledStandardError s1 s2)"
  by (simp add: twoSampleTTest_def pooledStandardError_def Let_def)

lemma twoSample_same_tStatistic:
  "tStatistic (twoSampleTTest j S S a True)
     = (if (\<exists>m. stats_mean S = Fin m) \<and> pooledStandardError S S \<noteq> Fin 0 \<and>
           pooledStandardError S S \<noteq> NaN
        then Fin 0 else NaN)"
  unfolding twoSample_pooled_tStatistic
  by (cases "stats_mean S"; cases "pooledStandardError S S")
     (simp_all add: fl_div_def fl_sub_def js_sub_def inf_of_sign_def)

lemma twoSample_fallback_pValue:
  "TTestResult.pValue (twoSampleTTest (jStat None) s1 s2 a eqv) = Fin 1"
  by (simp add: twoSampleTTest_def Let_def jStat_def fallback_jStat_def split_def
        fl_mul_def fl_sub_def)

lemma twoSample_fallback_no_reject:
  "js_le a (Fin 1) \<Longrightarrow> \<not> TTestResult.reject (twoSampleTTest (jStat None) s1 s2 a eqv)"
proof -
  assume a: "js_le a (Fin 1)"
  have "TTestResult.reject (twoSampleTTest (jStat None) s1 s2 a eqv)
          = js_lt (TTestResult.pValue (twoSampleTTest (jStat None) s1 s2 a eqv)) a"
    by (simp add: twoSampleTTest_def Let_def split_def)
  with a show ?thesis
    unfolding twoSample_fallback_pValue by (cases a) (auto simp: js_le_def js_eq_def)
qed

lemma square_at_least:
  assumes "1 / 2 \<le> \<bar>x - m\<bar>"
  shows "at_least (1 / 4) (fl_pow (fl_sub (Fin x) (Fin m)) 2)"
proof -
  have q: "(1 / 4 :: real) \<in> doubles" using quarter_in_doubles [of 1] by simp
  have h: "(1 / 2 :: real) \<in> doubles" using half_in_doubles [of 1] by simp
  have sq: "at_least (1 / 4) (binary64 (c\<^sup>2))" if "1 / 2 \<le> \<bar>c\<bar>" for c :: real
  proof -
    from that have "(1 / 2)\<^sup>2 \<le> \<bar>c\<bar>\<^sup>2" by (intro power_mono) simp_all
    then have "1 / 4 \<le> c\<^sup>2" by (simp add: power2_eq_square)
    then show ?thesis by (rule at_least_binary64 [OF q])
  qed
  consider "1 / 2 \<le> x - m" | "x - m \<le> - (1 / 2)" using assms by linarith
  then show ?thesis
  proof cases
    case 1
    from binary64_ge_double [OF h 1] show ?thesis
      by (auto simp: fl_sub_def fl_pow_def Math_pow_def at_least_def [of _ PInf] intro!: sq)
  next
    case 2
    from binary64_le_double [OF doubles_uminus [OF h] 2] show ?thesis
      by (auto simp: fl_sub_def fl_pow_def Math_pow_def at_least_def [of _ PInf] intro!: sq)
  qed
qed

lemma squares_foldl_at_least:
  assumes "at_least (1 / 4) c"
  shows "at_least (1 / 4)
           (foldl (\<lambda>sum val. fl_add sum (fl_pow (fl_sub val (Fin m)) 2)) c (map Fin xs))"
  using assms
proof (induction xs arbitrary: c)
  case Nil
  then show ?case by simp
next
  case (Cons x xs)
  have q: "(1 / 4 :: real) \<in> doubles" using quarter_in_doubles [of 1] by simp
  have "is_nonneg (fl_pow (fl_sub (Fin x) (Fin m)) 2)"
    by (intro is_nonneg_fl_square fl_sub_Fin_not_NaN)
  with Cons.prems have "at_least (1 / 4) (fl_add c (fl_pow (fl_sub (Fin x) (Fin m)) 2))"
    by (intro at_least_fl_add1 q)
  then show ?case using Cons.IH by simp
qed

lemma squares_foldl_spread:
  assumes "is_nonneg c" and "z \<in> set xs" and "1 / 2 \<le> \<bar>z - m\<bar>"
  shows "at_least (1 / 4)
           (foldl (\<lambda>sum val. fl_add sum (fl_pow (fl_sub val (Fin m)) 2)) c (map Fin xs))"
  using assms(1,2)
proof (induction xs arbitrary: c)
  case Nil
  then show ?case by simp
next
  case (Cons x xs)
  have q: "(1 / 4 :: real) \<in> doubles" using quarter_in_doubles [of 1] by simp
  have nn: "is_nonneg (fl_pow (fl_sub (Fin x) (Fin m)) 2)"
    by (intro is_nonneg_fl_square fl_sub_Fin_not_NaN)
  show ?case
  proof (cases "z = x")
    case True
    have "at_least (1 / 4) (fl_pow (fl_sub (Fin x) (Fin m)) 2)"
      using assms(3) True by (intro square_at_least) simp
    with Cons.prems(1) have "at_least (1 / 4) (fl_add c (fl_pow (fl_sub (Fin x) (Fin m)) 2))"
      by (intro at_least_fl_add2 q)
    then show ?thesis using squares_foldl_at_least by simp
  next
    case False
    with Cons.prems(2) have z: "z \<in> set xs" by simp
    from Cons.prems(1) nn have "is_nonneg (fl_add c (fl_pow (fl_sub (Fin x) (Fin m)) 2))"
      by (rule is_nonneg_fl_add)
    from Cons.IH [OF this z] show ?thesis by simp
  qed
qed

lemma pooledStandardError_positive:
  assumes n: "2 \<le> length xs" "length xs < 2 ^ 32"
    and m: "stats_mean (map Fin xs) = Fin m"
    and xy: "x \<in> set xs" "y \<in> set xs" "1 \<le> y - x"
  shows "at_least (1 / 2 ^ 50) (pooledStandardError (map Fin xs) (map Fin xs))"
proof -
  define k where "k = real (length xs)"
  have k2: "2 \<le> k" using n(1) by (simp add: k_def)
  have "int (length xs) < 2 ^ 32"
    using n(2) by (simp add: of_nat_less_iff [symmetric] del: of_nat_less_iff)
  then have "real_of_int (int (length xs)) < real_of_int (2 ^ 32)"
    by (rule of_int_less_iff [THEN iffD2])
  then have ku: "k < 2 ^ 32" by (simp add: k_def)
  have l: "length (map Fin xs) = length xs" by simp
  have len: "len (map Fin xs) = Fin k" by (simp add: len_def k_def)
  note la = length_arith [of "map Fin xs", unfolded l, OF n, folded k_def]
  have k1: "fl_sub (Fin k) (Fin 1) = Fin (k - 1)" using la(1) by (simp only: len)
  have k22: "fl_sub (fl_add (Fin k) (Fin k)) (Fin 2) = Fin (2 * k - 2)"
    using la(2) by (simp only: len)
  obtain z where z: "z \<in> set xs" "1 / 2 \<le> \<bar>z - m\<bar>"
  proof (cases "1 / 2 \<le> \<bar>x - m\<bar>")
    case True
    with xy(1) that show ?thesis by blast
  next
    case False
    with xy(3) have "1 / 2 \<le> \<bar>y - m\<bar>" by linarith
    with xy(2) that show ?thesis by blast
  qed
  have d34: "1 / (2::real) ^ 34 \<in> doubles" by (rule inverse_power2_in_doubles) simp
  have d67: "1 / (2::real) ^ 67 \<in> doubles" by (rule inverse_power2_in_doubles) simp
  have d32: "1 / (2::real) ^ 32 \<in> doubles" by (rule inverse_power2_in_doubles) simp
  have d99: "1 / (2::real) ^ 99 \<in> doubles" by (rule inverse_power2_in_doubles) simp
  have d50: "1 / (2::real) ^ 50 \<in> doubles" by (rule inverse_power2_in_doubles) simp
  have s: "at_least (1 / 4)
             (foldl (\<lambda>sum val. fl_add sum (fl_pow (fl_sub val (Fin m)) 2)) (Fin 0) (map Fin xs))"
    by (rule squares_foldl_spread [OF _ z]) (simp add: is_nonneg_def)
  have v: "at_least (1 / 2 ^ 34) (stats_variance (map Fin xs))"
    unfolding stats_variance_def Let_def m len k1
    using k2 ku by (intro at_least_fl_div [OF d34 s]) simp_all
  have a: "at_least (1 / 2 ^ 34) (fl_mul (Fin (k - 1)) (stats_variance (map Fin xs)))"
    using k2 by (intro at_least_fl_mul [OF d34 _ v, of 1]) (simp_all add: at_least_def)
  then have a0: "is_nonneg (fl_mul (Fin (k - 1)) (stats_variance (map Fin xs)))"
    by (rule at_least_nonneg) simp
  have b: "at_least (1 / 2 ^ 34)
             (fl_add (fl_mul (Fin (k - 1)) (stats_variance (map Fin xs)))
                     (fl_mul (Fin (k - 1)) (stats_variance (map Fin xs))))"
    by (rule at_least_fl_add1 [OF d34 a a0])
  have c: "at_least (1 / 2 ^ 67)
             (fl_div (fl_add (fl_mul (Fin (k - 1)) (stats_variance (map Fin xs)))
                             (fl_mul (Fin (k - 1)) (stats_variance (map Fin xs))))
                (Fin (2 * k - 2)))"
    using k2 ku by (intro at_least_fl_div [OF d67 b]) simp_all
  have e: "at_least (1 / 2 ^ 32) (fl_div (Fin 1) (Fin k))"
    using k2 ku by (intro at_least_fl_div [OF d32, of 1]) (simp_all add: at_least_def)
  then have e0: "is_nonneg (fl_div (Fin 1) (Fin k))" by (rule at_least_nonneg) simp
  have f: "at_least (1 / 2 ^ 32) (fl_add (fl_div (Fin 1) (Fin k)) (fl_div (Fin 1) (Fin k)))"
    by (rule at_least_fl_add1 [OF d32 e e0])
  have g: "at_least (1 / 2 ^ 99)
             (fl_mul
                (fl_div (fl_add (fl_mul (Fin (k - 1)) (stats_variance (map Fin xs)))
                                (fl_mul (Fin (k - 1)) (stats_variance (map Fin xs))))
                   (Fin (2 * k - 2)))
                (fl_add (fl_div (Fin 1) (Fin k)) (fl_div (Fin 1) (Fin k))))"
    by (rule at_least_fl_mul [OF d99 c f]) simp_all
  show ?thesis
    unfolding pooledStandardError_def len k1 k22
    by (rule at_least_fl_sqrt [OF d50 g]) (simp_all add: power_divide)
qed

lemma twoSample_spread_tStatistic:
  assumes "2 \<le> length xs" and "length xs < 2 ^ 32"
    and "\<exists>m. stats_mean (map Fin xs) = Fin m"
    and "\<exists>x\<in>set xs. \<exists>y\<in>set xs. 1 \<le> y - x"
  shows "tStatistic (twoSampleTTest j (map Fin xs) (map Fin xs) a True) = Fin 0"
proof -
  from assms(3) obtain m where m: "stats_mean (map Fin xs) = Fin m" by blast
  from assms(4) obtain x y where xy: "x \<in> set xs" "y \<in> set xs" "1 \<le> y - x" by blast
  have "at_least (1 / 2 ^ 50) (pooledStandardError (map Fin xs) (map Fin xs))"
    by (rule pooledStandardError_positive [OF assms(1,2) m xy])
  then have "pooledStandardError (map Fin xs) (map Fin xs) \<noteq> Fin 0"
    and "pooledStandardError (map Fin xs) (map Fin xs) \<noteq> NaN"
    by (auto simp: at_least_def)
  with m show ?thesis unfolding twoSample_same_tStatistic by simp
qed

text \<open>
  Claim C4, as stated: for every sample \<open>S\<close> of length at least two,
  \<open>twoSampleTTest(S, S, alpha, true)\<close> has the t statistic \<open>0\<close> and does not
  reject. It fails on the constant sample \<open>[5, 5]\<close>: the mean is \<open>5\<close>, the variance,
  the pooled variance and the standard error are \<open>0\<close>, and the statistic is \<open>0/0\<close>.
\<close>

theorem twoSampleTTest_constant_counterexample:
  "tStatistic (twoSampleTTest (jStat None) [Fin 5, Fin 5] [Fin 5, Fin 5] (Fin 0.05) True) = NaN \<and>
   \<not> js_eq (tStatistic (twoSampleTTest (jStat None) [Fin 5, Fin 5] [Fin 5, Fin 5] (Fin 0.05) True))
        (Fin 0)"
proof -
  have mn: "stats_mean [Fin 5, Fin 5] = Fin 5"
    by (simp add: stats_mean_def fl_add_def fl_div_def len_def)
  have vr: "stats_variance [Fin 5, Fin 5] = Fin 0"
    by (simp add: stats_variance_def Let_def mn fl_add_def fl_sub_def fl_pow_def fl_div_def
          len_def)
  have se: "pooledStandardError [Fin 5, Fin 5] [Fin 5, Fin 5] = Fin 0"
    unfolding pooledStandardError_def vr
    by (simp add: fl_add_def fl_sub_def fl_mul_def fl_div_def fl_sqrt_def len_def)
  have "tStatistic (twoSampleTTest (jStat None) [Fin 5, Fin 5] [Fin 5, Fin 5] (Fin 0.05) True)
          = NaN"
    unfolding twoSample_pooled_tStatistic se mn
    by (simp add: fl_sub_def fl_div_def inf_of_sign_def)
  then show ?thesis by (simp add: js_eq_def)
qed

text \<open>
  Claim C4, amended. Of \<open>twoSampleTTest(S, S, alpha, true)\<close>, whatever \<open>jStat\<close>
  is, the t statistic is \<open>0\<close> when the computed mean of \<open>S\<close> is finite and the
  computed pooled standard error is neither \<open>0\<close> nor \<open>NaN\<close>, and it is \<open>NaN\<close>
  otherwise. With the fallback \<open>jStat\<close> the test does not reject at any
  \<open>alpha \<le> 1\<close>. The t statistic is \<open>0\<close> in particular on every sample of at least
  two and fewer than \<open>2\<^sup>3\<^sup>2\<close> finite numbers whose computed mean is finite and which
  holds two values at least \<open>1\<close> apart.
\<close>

theorem twoSampleTTest_identical:
  "tStatistic (twoSampleTTest j S S a True)
     = (if (\<exists>m. stats_mean S = Fin m) \<and> pooledStandardError S S \<noteq> Fin 0 \<and>
           pooledStandardError S S \<noteq> NaN
        then Fin 0 else NaN) \<and>
   (js_le a (Fin 1) \<longrightarrow> \<not> TTestResult.reject (twoSampleTTest (jStat None) S S a True)) \<and>
   (2 \<le> length xs \<and> length xs < 2 ^ 32 \<and> (\<exists>m. stats_mean (map Fin xs) = Fin m) \<and>
    (\<exists>x\<in>set xs. \<exists>y\<in>set xs. 1 \<le> y - x) \<longrightarrow>
      tStatistic (twoSampleTTest j (map Fin xs) (map Fin xs) a True) = Fin 0)"
  using twoSample_same_tStatistic [of j S a] twoSample_fallback_no_reject [of a S S True]
    twoSample_spread_tStatistic [of xs j a]
  by blast

theorem twoSampleTTest_identical_witness:
  "js_le (Fin 0.05) (Fin 1) \<and> 2 \<le> length [1, 3 :: real] \<and> length [1, 3 :: real] < 2 ^ 32 \<and>
   stats_mean (map Fin [1, 3]) = Fin 2 \<and> (\<exists>x\<in>set [1, 3 :: real]. \<exists>y\<in>set [1, 3]. 1 \<le> y - x) \<and>
   tStatistic (twoSampleTTest (jStat None) (map Fin [1, 3]) (map Fin [1, 3]) (Fin 0.05) True)
     = Fin 0 \<and>
   \<not> TTestResult.reject
       (twoSampleTTest (jStat None) (map Fin [1, 3]) (map Fin [1, 3]) (Fin 0.05) True)"
proof -
  have a: "js_le (Fin 0.05) (Fin 1)" by simp
  have l: "2 \<le> length [1, 3 :: real]" "length [1, 3 :: real] < 2 ^ 32" by simp_all
  have mn: "stats_mean (map Fin [1, 3]) = Fin 2"
    by (simp add: stats_mean_def fl_add_def fl_div_def len_def)
  then have m: "\<exists>m. stats_mean (map Fin [1, 3]) = Fin m" by blast
  have s: "\<exists>x\<in>set [1, 3 :: real]. \<exists>y\<in>set [1, 3]. 1 \<le> y - x" by simp
  note th = twoSampleTTest_identical [of "jStat None" "map Fin [1, 3]" "Fin 0.05" "[1, 3]"]
  from th a have r: "\<not> TTestResult.reject
       (twoSampleTTest (jStat None) (map Fin [1, 3]) (map Fin [1, 3]) (Fin 0.05) True)"
    by blast
  from th l m s
  have t: "tStatistic (twoSampleTTest (jStat None) (map Fin [1, 3]) (map Fin [1, 3]) (Fin 0.05) True)
             = Fin 0"
    by blast
  from a l mn s t r show ?thesis by blast
qed

subsection \<open>Confidence interval for the mean\<close>

lemma interval_around:
  assumes m: "m \<in> doubles" and g: "is_nonneg g"
  shows "js_le (fl_sub (Fin m) g) (Fin m) \<and> js_le (Fin m) (fl_add (Fin m) g)"
proof (cases g)
  case (Fin e)
  with g have e: "0 \<le> e" by (simp add: is_nonneg_def)
  then have "m - e \<le> m" "m \<le> m + e" by simp_all
  from binary64_le_double [OF m this(1)] binary64_ge_double [OF m this(2)]
  show ?thesis by (auto simp: Fin fl_sub_def fl_add_def js_le_def js_eq_def)
next
  case PInf
  then show ?thesis by (simp add: fl_sub_def fl_add_def js_le_def js_eq_def js_sub_def)
qed (use g in \<open>simp_all add: is_nonneg_def\<close>)

lemma confidenceIntervalMean_fields:
  "IntervalResult.mean (confidenceIntervalMean d c) = stats_mean d"
  "standardError (confidenceIntervalMean d c)
     = fl_div (stats_standardDeviation d) (fl_sqrt (len d))"
  "marginOfError (confidenceIntervalMean d c)
     = fl_mul (if js_eq c (binary64 0.95) then binary64 1.96
               else if js_eq c (binary64 0.99) then binary64 2.576 else binary64 1.645)
         (standardError (confidenceIntervalMean d c))"
  "lowerBound (confidenceIntervalMean d c)
     = fl_sub (IntervalResult.mean (confidenceIntervalMean d c))
         (marginOfError (confidenceIntervalMean d c))"
  "upperBound (confidenceIntervalMean d c)
     = fl_add (IntervalResult.mean (confidenceIntervalMean d c))
         (marginOfError (confidenceIntervalMean d c))"
  by (simp_all add: confidenceIntervalMean_def Let_def)

text \<open>
  Claim C6, as stated: on every sample of at least two finite numbers and at each of
  the levels \<open>0.90\<close>, \<open>0.95\<close> and \<open>0.99\<close>, \<open>lowerBound \<le> mean \<le> upperBound\<close>. It
  fails when the sum of the sample overflows: on \<open>[2\<^sup>1\<^sup>0\<^sup>2\<^sup>3, 2\<^sup>1\<^sup>0\<^sup>2\<^sup>3]\<close> the mean is
  \<open>Infinity\<close>, so are the standard deviation and the margin of error, and the lower
  bound is \<open>Infinity - Infinity\<close>, which is \<open>NaN\<close> and compares with nothing.
\<close>

theorem confidenceIntervalMean_overflow_counterexample:
  "IntervalResult.mean (confidenceIntervalMean [Fin (2 ^ 1023), Fin (2 ^ 1023)] (binary64 0.95))
     = PInf \<and>
   lowerBound (confidenceIntervalMean [Fin (2 ^ 1023), Fin (2 ^ 1023)] (binary64 0.95)) = NaN \<and>
   \<not> js_le (lowerBound (confidenceIntervalMean [Fin (2 ^ 1023), Fin (2 ^ 1023)] (binary64 0.95)))
          (IntervalResult.mean
             (confidenceIntervalMean [Fin (2 ^ 1023), Fin (2 ^ 1023)] (binary64 0.95)))"
proof -
  let ?d = "[Fin (2 ^ 1023), Fin (2 ^ 1023)]"
  have b: "binary64 (2 ^ 1023) = Fin (2 ^ 1023)"
    by (rule binary64_double [OF power2_in_doubles]) simp
  have a1: "fl_add (Fin 0) (Fin (2 ^ 1023)) = Fin (2 ^ 1023)"
    by (simp only: fl_add_def js_add.simps fl.simps add_0_left b)
  have "(2::real) ^ 1023 + 2 ^ 1023 = 2 ^ 1024" by simp
  then have a2: "fl_add (Fin (2 ^ 1023)) (Fin (2 ^ 1023)) = PInf"
    by (simp only: fl_add_def js_add.simps fl.simps binary64_overflow order_refl)
  have ln: "len ?d = Fin 2" by (simp add: len_def)
  have mn: "stats_mean ?d = PInf"
    unfolding stats_mean_def ln by (simp only: foldl.simps a1 a2) (simp add: fl_div_def)
  have s: "fl_pow (fl_sub (Fin (2 ^ 1023)) PInf) 2 = PInf"
    by (simp add: fl_sub_def fl_pow_def js_sub_def Math_pow_def)
  have k: "fl_sub (Fin 2) (Fin 1) = Fin 1" by (simp add: fl_sub_def)
  have vr: "stats_variance ?d = PInf"
    unfolding stats_variance_def Let_def mn ln k
    by (simp only: foldl.simps s) (simp add: fl_add_def fl_div_def)
  have sd: "stats_standardDeviation ?d = PInf"
    unfolding stats_standardDeviation_def vr by (simp add: fl_sqrt_def)
  obtain c where c: "fl_sqrt (len ?d) = Fin c" "1 \<le> c"
    using sqrt_length [of ?d] by auto
  have se: "fl_div (stats_standardDeviation ?d) (fl_sqrt (len ?d)) = PInf"
    unfolding sd c(1) using c(2) by (simp add: fl_div_def)
  obtain t where t: "binary64 1.96 = Fin t" "1 \<le> t"
    using binary64_literal [of "1.96"] by auto
  have e: "js_eq (binary64 0.95) (binary64 0.95)" by (simp add: js_eq_def)
  have mg: "marginOfError (confidenceIntervalMean ?d (binary64 0.95)) = PInf"
    unfolding confidenceIntervalMean_fields se
    using t(2) by (simp only: e if_True t(1)) (simp add: fl_mul_def inf_of_sign_def)
  have lb: "lowerBound (confidenceIntervalMean ?d (binary64 0.95)) = NaN"
    unfolding confidenceIntervalMean_fields(4) mg confidenceIntervalMean_fields(1) mn
    by (simp add: fl_sub_def js_sub_def)
  show ?thesis
    unfolding lb unfolding confidenceIntervalMean_fields(1) mn
    by (simp add: js_le_def js_eq_def)
qed

text \<open>
  Claim C6, amended. On a sample of at least two and fewer than \<open>2\<^sup>3\<^sup>2\<close> finite
  numbers whose computed mean is finite, at every confidence level (so at \<open>0.90\<close>,
  \<open>0.95\<close> and \<open>0.99\<close>), \<open>confidenceIntervalMean\<close> returns that mean, the standard
  error \<open>std / sqrt(n)\<close>, the margin of error \<open>tCritical * standardError\<close> with the
  multiplier \<open>1.96\<close> at the level \<open>0.95\<close>, \<open>2.576\<close> at the level \<open>0.99\<close> and
  \<open>1.645\<close>, the multiplier of the level \<open>0.90\<close>, at any other level, and the bounds
  \<open>mean - marginOfError\<close> and \<open>mean + marginOfError\<close>, which satisfy
  \<open>lowerBound \<le> mean \<le> upperBound\<close>.
\<close>

theorem confidenceIntervalMean_bounds:
  assumes "2 \<le> length xs" and "length xs < 2 ^ 32"
    and "stats_mean (map Fin xs) = Fin m"
  shows "IntervalResult.mean (confidenceIntervalMean (map Fin xs) c) = Fin m \<and>
         standardError (confidenceIntervalMean (map Fin xs) c)
           = fl_div (stats_standardDeviation (map Fin xs)) (fl_sqrt (len xs)) \<and>
         marginOfError (confidenceIntervalMean (map Fin xs) c)
           = fl_mul (if js_eq c (binary64 0.95) then binary64 1.96
                     else if js_eq c (binary64 0.99) then binary64 2.576
                     else binary64 1.645)
               (standardError (confidenceIntervalMean (map Fin xs) c)) \<and>
         lowerBound (confidenceIntervalMean (map Fin xs) c)
           = fl_sub (Fin m) (marginOfError (confidenceIntervalMean (map Fin xs) c)) \<and>
         upperBound (confidenceIntervalMean (map Fin xs) c)
           = fl_add (Fin m) (marginOfError (confidenceIntervalMean (map Fin xs) c)) \<and>
         js_le (lowerBound (confidenceIntervalMean (map Fin xs) c)) (Fin m) \<and>
         js_le (Fin m) (upperBound (confidenceIntervalMean (map Fin xs) c))"
proof -
  let ?r = "confidenceIntervalMean (map Fin xs) c"
  let ?t = "if js_eq c (binary64 0.95) then binary64 1.96
            else if js_eq c (binary64 0.99) then binary64 2.576 else binary64 1.645"
  have md: "m \<in> doubles"
    using is_double_stats_mean [of "map Fin xs"] by (simp add: assms(3) is_double_def)
  have se: "is_nonneg (standardError ?r)"
    unfolding confidenceIntervalMean_fields by (rule standardError_nonneg [OF assms])
  have b1: "\<exists>t. binary64 1.96 = Fin t \<and> 1 \<le> t" by (rule binary64_literal) simp_all
  have b2: "\<exists>t. binary64 2.576 = Fin t \<and> 1 \<le> t" by (rule binary64_literal) simp_all
  have b3: "\<exists>t. binary64 1.645 = Fin t \<and> 1 \<le> t" by (rule binary64_literal) simp_all
  have "\<exists>t. ?t = Fin t \<and> 1 \<le> t"
    by (cases "js_eq c (binary64 0.95)"; cases "js_eq c (binary64 0.99)";
        simp only: if_True if_False b1 b2 b3)
  then obtain t where t: "?t = Fin t" "1 \<le> t" by blast
  have "is_nonneg (fl_mul (Fin t) (standardError ?r))"
    using t(2) se by (intro is_nonneg_fl_mul) simp_all
  then have mg: "is_nonneg (marginOfError ?r)"
    unfolding confidenceIntervalMean_fields(3) t(1) .
  have mean: "IntervalResult.mean ?r = Fin m"
    by (simp add: confidenceIntervalMean_fields(1) assms(3))
  have len: "len (map Fin xs) = len xs" by (simp add: len_def)
  from interval_around [OF md mg] show ?thesis
    unfolding confidenceIntervalMean_fields(4,5) mean
    using confidenceIntervalMean_fields(2,3) [of "map Fin xs" c] len by simp
qed

theorem confidenceIntervalMean_bounds_witness:
  "2 \<le> length [4, 0, 0, 0 :: real] \<and> length [4, 0, 0, 0 :: real] < 2 ^ 32 \<and>
   stats_mean (map Fin [4, 0, 0, 0]) = Fin 1 \<and>
   IntervalResult.mean (confidenceIntervalMean (map Fin [4, 0, 0, 0]) (binary64 0.95)) = Fin 1 \<and>
   standardError (confidenceIntervalMean (map Fin [4, 0, 0, 0]) (binary64 0.95)) = Fin 1 \<and>
   marginOfError (confidenceIntervalMean (map Fin [4, 0, 0, 0]) (binary64 0.95))
     = binary64 1.96 \<and>
   lowerBound (confidenceIntervalMean (map Fin [4, 0, 0, 0]) (binary64 0.95))
     = fl_sub (Fin 1) (binary64 1.96) \<and>
   upperBound (confidenceIntervalMean (map Fin [4, 0, 0, 0]) (binary64 0.95))
     = fl_add (Fin 1) (binary64 1.96) \<and>
   js_le (lowerBound (confidenceIntervalMean (map Fin [4, 0, 0, 0]) (binary64 0.95))) (Fin 1) \<and>
   js_le (Fin 1) (upperBound (confidenceIntervalMean (map Fin [4, 0, 0, 0]) (binary64 0.95))) \<and>
   marginOfError (confidenceIntervalMean (map Fin [4, 0, 0, 0]) (binary64 0.9))
     = binary64 1.645"
proof -
  have l: "2 \<le> length [4, 0, 0, 0 :: real]" "length [4, 0, 0, 0 :: real] < 2 ^ 32"
    by simp_all
  have mn: "stats_mean (map Fin [4, 0, 0, 0]) = Fin 1"
    by (simp add: stats_mean_def fl_add_def fl_div_def len_def)
  from mn have mn': "stats_mean [Fin 4, Fin 0, Fin 0, Fin 0] = Fin 1" by simp
  have vr: "stats_variance (map Fin [4, 0, 0, 0]) = Fin 4"
    by (simp add: stats_variance_def Let_def mn' fl_add_def fl_sub_def fl_pow_def fl_div_def
          len_def)
  have sd: "stats_standardDeviation (map Fin [4, 0, 0, 0]) = Fin 2"
    unfolding stats_standardDeviation_def vr by (simp add: fl_sqrt_def)
  have sq: "fl_sqrt (len [4, 0, 0, 0 :: real]) = Fin 2"
    by (simp add: fl_sqrt_def len_def)
  have se: "fl_div (stats_standardDeviation (map Fin [4, 0, 0, 0])) (fl_sqrt (len [4, 0, 0, 0 :: real]))
              = Fin 1"
    unfolding sd sq by (simp add: fl_div_def)
  have c: "js_eq (binary64 0.95) (binary64 0.95)" by (simp add: js_eq_def)
  have d1: "(29 / 32 :: real) \<in> doubles" using dyadic40_in_doubles [of "29 * 2 ^ 35"] by simp
  have d2: "(15 / 16 :: real) \<in> doubles" using dyadic40_in_doubles [of "15 * 2 ^ 36"] by simp
  have "binary64 0.9 = NInf \<or> (\<exists>c. binary64 0.9 = Fin c \<and> c \<le> 29 / 32 \<and> c \<in> doubles)"
    by (rule binary64_le_double [OF d1]) simp
  moreover
  have "binary64 0.95 = PInf \<or> (\<exists>c. binary64 0.95 = Fin c \<and> 15 / 16 \<le> c \<and> c \<in> doubles)"
    by (rule binary64_ge_double [OF d2]) simp
  moreover
  have "binary64 0.99 = PInf \<or> (\<exists>c. binary64 0.99 = Fin c \<and> 15 / 16 \<le> c \<and> c \<in> doubles)"
    by (rule binary64_ge_double [OF d2]) simp
  ultimately have n: "\<not> js_eq (binary64 0.9) (binary64 0.95)"
      "\<not> js_eq (binary64 0.9) (binary64 0.99)"
    by (auto simp: js_eq_def)
  have mg: "fl_mul (binary64 x) (Fin 1) = binary64 x" for x
    by (rule fl_mul_one [OF is_double_binary64])
  let ?r = "confidenceIntervalMean (map Fin [4, 0, 0, 0]) (binary64 0.95)"
  let ?s = "confidenceIntervalMean (map Fin [4, 0, 0, 0]) (binary64 0.9)"
  note th = confidenceIntervalMean_bounds [OF l mn, of "binary64 0.95", unfolded se]
  note th' = confidenceIntervalMean_bounds [OF l mn, of "binary64 0.9", unfolded se]
  from th have m1: "IntervalResult.mean ?r = Fin 1" by (rule conjunct1)
  from th have s1: "standardError ?r = Fin 1" by blast
  from th have "marginOfError ?r
      = fl_mul (if js_eq (binary64 0.95) (binary64 0.95) then binary64 1.96
                else if js_eq (binary64 0.95) (binary64 0.99) then binary64 2.576
                else binary64 1.645) (standardError ?r)"
    by blast
  then have g1: "marginOfError ?r = binary64 1.96"
    by (simp only: c if_True s1 mg)
  from th have "lowerBound ?r = fl_sub (Fin 1) (marginOfError ?r)" by blast
  then have l1: "lowerBound ?r = fl_sub (Fin 1) (binary64 1.96)" by (simp only: g1)
  from th have "upperBound ?r = fl_add (Fin 1) (marginOfError ?r)" by blast
  then have u1: "upperBound ?r = fl_add (Fin 1) (binary64 1.96)" by (simp only: g1)
  from th have b1: "js_le (lowerBound ?r) (Fin 1)" "js_le (Fin 1) (upperBound ?r)"
    by blast+
  from th' have s2: "standardError ?s = Fin 1" by blast
  from th' have "marginOfError ?s
      = fl_mul (if js_eq (binary64 0.9) (binary64 0.95) then binary64 1.96
                else if js_eq (binary64 0.9) (binary64 0.99) then binary64 2.576
                else binary64 1.645) (standardError ?s)"
    by blast
  then have g2: "marginOfError ?s = binary64 1.645"
    by (simp only: n if_False s2 mg)
  from l mn m1 s1 g1 l1 u1 b1 g2 show ?thesis by blast
qed

subsection \<open>The error function\<close>

lemma erf_sign:
  "erf x0 = fl_mul (if js_lt x0 (Fin 0) then Fin (- 1) else Fin 1) (erf_magnitude (Math_abs x0))"
  by (simp add: erf_def erf_magnitude_def Let_def)

lemma is_double_erf_magnitude: "is_double (erf_magnitude x)"
  by (simp add: erf_magnitude_def Let_def fl_sub_def)

lemma erf_negate:
  assumes "x \<noteq> 0"
  shows "erf (js_neg (Fin x)) = js_neg (erf (Fin x))"
proof (cases "x < 0")
  case True
  have "erf (Fin x) = js_neg (erf_magnitude (Fin \<bar>x\<bar>))"
    using True by (simp add: erf_sign fl_mul_sign is_double_erf_magnitude)
  moreover have "erf (js_neg (Fin x)) = erf_magnitude (Fin \<bar>x\<bar>)"
    using True by (simp add: erf_sign fl_mul_sign is_double_erf_magnitude)
  moreover have "js_neg (js_neg v) = v" for v by (cases v) simp_all
  ultimately show ?thesis by simp
next
  case False
  with assms have "0 < x" by simp
  then have "erf (Fin x) = erf_magnitude (Fin \<bar>x\<bar>)"
    by (simp add: erf_sign fl_mul_sign is_double_erf_magnitude)
  moreover have "erf (js_neg (Fin x)) = js_neg (erf_magnitude (Fin \<bar>x\<bar>))"
    using \<open>0 < x\<close> by (simp add: erf_sign fl_mul_sign is_double_erf_magnitude)
  ultimately show ?thesis by simp
qed

lemma erf_zero_bounds:
  "\<exists>c. erf (Fin 0) = Fin c \<and> 1096 / 2 ^ 40 \<le> c \<and> c \<le> 1101 / 2 ^ 40"
proof -
  have "\<exists>c. binary64 0.254829592 = Fin c \<and> c \<in> doubles \<and>
             real_of_int 280188099505 / 2 ^ 40 \<le> c \<and> c \<le> real_of_int 280188099506 / 2 ^ 40"
    by (rule binary64_dyadic_between) simp_all
  then obtain c1 where c1: "binary64 0.254829592 = Fin c1" "c1 \<in> doubles"
      "280188099505 / 2 ^ 40 \<le> c1" "c1 \<le> 280188099506 / 2 ^ 40"
    by auto
  have "\<exists>c. binary64 0.284496736 = Fin c \<and> c \<in> doubles \<and>
             real_of_int 312807469296 / 2 ^ 40 \<le> c \<and> c \<le> real_of_int 312807469297 / 2 ^ 40"
    by (rule binary64_dyadic_between) simp_all
  then obtain c2 where c2: "binary64 0.284496736 = Fin c2" "c2 \<in> doubles"
      "312807469296 / 2 ^ 40 \<le> c2" "c2 \<le> 312807469297 / 2 ^ 40"
    by auto
  have "\<exists>c. binary64 1.421413741 = Fin c \<and> c \<in> doubles \<and>
             real_of_int 1562860936110 / 2 ^ 40 \<le> c \<and> c \<le> real_of_int 1562860936111 / 2 ^ 40"
    by (rule binary64_dyadic_between) simp_all
  then obtain c3 where c3: "binary64 1.421413741 = Fin c3" "c3 \<in> doubles"
      "1562860936110 / 2 ^ 40 \<le> c3" "c3 \<le> 1562860936111 / 2 ^ 40"
    by auto
  have "\<exists>c. binary64 1.453152027 = Fin c \<and> c \<in> doubles \<and>
             real_of_int 1597757550612 / 2 ^ 40 \<le> c \<and> c \<le> real_of_int 1597757550613 / 2 ^ 40"
    by (rule binary64_dyadic_between) simp_all
  then obtain c4 where c4: "binary64 1.453152027 = Fin c4" "c4 \<in> doubles"
      "1597757550612 / 2 ^ 40 \<le> c4" "c4 \<le> 1597757550613 / 2 ^ 40"
    by auto
  have "\<exists>c. binary64 1.061405429 = Fin c \<and> c \<in> doubles \<and>
             real_of_int 1167027610970 / 2 ^ 40 \<le> c \<and> c \<le> real_of_int 1167027610971 / 2 ^ 40"
    by (rule binary64_dyadic_between) simp_all
  then obtain c5 where c5: "binary64 1.061405429 = Fin c5" "c5 \<in> doubles"
      "1167027610970 / 2 ^ 40 \<le> c5" "c5 \<le> 1167027610971 / 2 ^ 40"
    by auto
  have "\<exists>c. binary64 0.3275911 = Fin c \<and> c \<in> doubles \<and>
             real_of_int 360190223605 / 2 ^ 40 \<le> c \<and> c \<le> real_of_int 360190223606 / 2 ^ 40"
    by (rule binary64_dyadic_between) simp_all
  then obtain cp where cp: "binary64 0.3275911 = Fin cp" "cp \<in> doubles"
      "360190223605 / 2 ^ 40 \<le> cp" "cp \<le> 360190223606 / 2 ^ 40"
    by auto
  have t: "fl_div (Fin 1) (fl_add (Fin 1) (fl_mul (Fin cp) (Fin 0))) = Fin 1"
    by (simp add: fl_div_def fl_add_def fl_mul_def)
  have e: "fl_exp (fl_mul (Fin (- 0)) (Fin 0)) = Fin 1"
    by (simp add: fl_exp_def fl_mul_def)
  have "\<exists>c. binary64 (c5 - c4) = Fin c \<and> c \<in> doubles \<and>
             real_of_int (- 430729939643) / 2 ^ 40 \<le> c \<and> c \<le> real_of_int (- 430729939641) / 2 ^ 40"
    by (rule binary64_dyadic_between) (use c5 c4 in simp_all)
  then obtain s2 where s2: "fl_add (Fin c5) (Fin (- c4)) = Fin s2" "s2 \<in> doubles"
      "(- 430729939643) / 2 ^ 40 \<le> s2" "s2 \<le> (- 430729939641) / 2 ^ 40"
    by (auto simp: fl_add_def)
  have "\<exists>c. binary64 (s2 + c3) = Fin c \<and> c \<in> doubles \<and>
             real_of_int 1132130996467 / 2 ^ 40 \<le> c \<and> c \<le> real_of_int 1132130996470 / 2 ^ 40"
    by (rule binary64_dyadic_between) (use s2 c3 in simp_all)
  then obtain s3 where s3: "fl_add (Fin s2) (Fin (c3)) = Fin s3" "s3 \<in> doubles"
      "1132130996467 / 2 ^ 40 \<le> s3" "s3 \<le> 1132130996470 / 2 ^ 40"
    by (auto simp: fl_add_def)
  have "\<exists>c. binary64 (s3 - c2) = Fin c \<and> c \<in> doubles \<and>
             real_of_int 819323527170 / 2 ^ 40 \<le> c \<and> c \<le> real_of_int 819323527174 / 2 ^ 40"
    by (rule binary64_dyadic_between) (use s3 c2 in simp_all)
  then obtain s4 where s4: "fl_add (Fin s3) (Fin (- c2)) = Fin s4" "s4 \<in> doubles"
      "819323527170 / 2 ^ 40 \<le> s4" "s4 \<le> 819323527174 / 2 ^ 40"
    by (auto simp: fl_add_def)
  have "\<exists>c. binary64 (s4 + c1) = Fin c \<and> c \<in> doubles \<and>
             real_of_int 1099511626675 / 2 ^ 40 \<le> c \<and> c \<le> real_of_int 1099511626680 / 2 ^ 40"
    by (rule binary64_dyadic_between) (use s4 c1 in simp_all)
  then obtain s5 where s5: "fl_add (Fin s4) (Fin (c1)) = Fin s5" "s5 \<in> doubles"
      "1099511626675 / 2 ^ 40 \<le> s5" "s5 \<le> 1099511626680 / 2 ^ 40"
    by (auto simp: fl_add_def)
  have "\<exists>c. binary64 (1 - s5) = Fin c \<and> c \<in> doubles \<and>
             real_of_int 1096 / 2 ^ 40 \<le> c \<and> c \<le> real_of_int 1101 / 2 ^ 40"
    by (rule binary64_dyadic_between) (use s5 in simp_all)
  then obtain y where y: "fl_sub (Fin 1) (Fin s5) = Fin y" "y \<in> doubles"
      "1096 / 2 ^ 40 \<le> y" "y \<le> 1101 / 2 ^ 40"
    by (auto simp: fl_sub_def)
  have "erf_magnitude (Fin 0) = Fin y"
    unfolding erf_magnitude_def Let_def c1(1) c2(1) c3(1) c4(1) c5(1) cp(1) t js_neg.simps
    by (simp only: fl_mul_Fin_one c5(2) s2 s3 s4 s5 e y(1))
  then have "erf (Fin 0) = Fin y"
    using y(2) by (simp add: erf_sign fl_mul_sign is_double_def)
  with y(3,4) show ?thesis by blast
qed

text \<open>
  Claim C7, as stated: \<open>erf(-x) == -erf(x)\<close> for every real \<open>x\<close>, and
  \<open>erf(0) == 0\<close>. Both fail at \<open>0\<close>: the five coefficients add up to
  \<open>0.999999999\<close>, so \<open>erf(0)\<close> is the residual of the approximation, a positive
  number close to \<open>10\<^sup>-\<^sup>9\<close>, and the sign is \<open>1\<close> for \<open>0\<close> and for \<open>-0\<close> alike.
\<close>

theorem erf_odd_counterexample:
  "\<not> js_eq (erf (js_neg (Fin 0))) (js_neg (erf (Fin 0))) \<and> \<not> js_eq (erf (Fin 0)) (Fin 0)"
proof -
  obtain c where c: "erf (Fin 0) = Fin c" "1096 / 2 ^ 40 \<le> c"
    using erf_zero_bounds by blast
  from c(2) have "0 < c" by simp
  then show ?thesis by (simp add: c(1) js_eq_def)
qed

text \<open>
  Claim C7, amended: \<open>erf(-x) == -erf(x)\<close> for every real \<open>x\<close> other than \<open>0\<close>
  (the sign is extracted before the magnitude is evaluated); \<open>erf(0)\<close> is not \<open>0\<close>
  but a positive number between \<open>0.99 * 10\<^sup>-\<^sup>9\<close> and \<open>1.01 * 10\<^sup>-\<^sup>9\<close>.
\<close>

theorem erf_odd:
  "(x \<noteq> 0 \<longrightarrow> erf (js_neg (Fin x)) = js_neg (erf (Fin x))) \<and>
   (\<exists>c. erf (Fin 0) = Fin c \<and> 99 / 10 ^ 11 \<le> c \<and> c \<le> 101 / 10 ^ 11)"
proof -
  obtain c where c: "erf (Fin 0) = Fin c" "1096 / 2 ^ 40 \<le> c" "c \<le> 1101 / 2 ^ 40"
    using erf_zero_bounds by blast
  from c(2) have "99 / 10 ^ 11 \<le> c" by simp
  moreover from c(3) have "c \<le> 101 / 10 ^ 11" by simp
  ultimately show ?thesis using c(1) erf_negate [of x] by blast
qed

theorem erf_odd_witness:
  "(2 :: real) \<noteq> 0 \<and> erf (js_neg (Fin 2)) = js_neg (erf (Fin 2)) \<and>
   (\<exists>c. erf (Fin 0) = Fin c \<and> 99 / 10 ^ 11 \<le> c \<and> c \<le> 101 / 10 ^ 11)"
  using erf_odd [of 2] by simp

subsection \<open>Chi-square goodness of fit\<close>

lemma chiSquare_foldl_skip:
  "foldl (\<lambda>chiSquare (observed_i, expected_i).
            if js_gt expected_i (Fin 0)
            then fl_add chiSquare (fl_div (fl_pow (fl_sub observed_i expected_i) 2) expected_i)
            else chiSquare)
     c (map (\<lambda>(ob, ex). (Fin ob, Fin ex)) ps)
   = foldl (\<lambda>chiSquare (ob, ex).
              fl_add chiSquare (fl_div (fl_pow (fl_sub (Fin ob) (Fin ex)) 2) (Fin ex)))
       c (filter (\<lambda>(ob, ex). 0 < ex) ps)"
proof (induction ps arbitrary: c)
  case Nil
  then show ?case by simp
next
  case (Cons p ps)
  obtain ob ex where p: "p = (ob, ex)" by (cases p)
  show ?case
    by (cases "0 < ex") (simp_all add: p Cons.IH)
qed

lemma chiSquare_foldl_nonneg:
  assumes "is_nonneg c" and "\<forall>(ob, ex)\<in>set ps. 0 < ex"
  shows "is_nonneg
           (foldl (\<lambda>chiSquare (ob, ex).
                     fl_add chiSquare (fl_div (fl_pow (fl_sub (Fin ob) (Fin ex)) 2) (Fin ex)))
              c ps)"
  using assms
proof (induction ps arbitrary: c)
  case Nil
  then show ?case by simp
next
  case (Cons p ps)
  obtain ob ex where p: "p = (ob, ex)" by (cases p)
  with Cons.prems have ex: "0 < ex" by simp
  have "is_nonneg (fl_div (fl_pow (fl_sub (Fin ob) (Fin ex)) 2) (Fin ex))"
    by (intro is_nonneg_fl_div is_nonneg_fl_square fl_sub_Fin_not_NaN ex)
  with Cons.prems(1)
  have "is_nonneg (fl_add c (fl_div (fl_pow (fl_sub (Fin ob) (Fin ex)) 2) (Fin ex)))"
    by (rule is_nonneg_fl_add)
  moreover from Cons.prems have "\<forall>(ob, ex)\<in>set ps. 0 < ex" by simp
  ultimately show ?case using Cons.IH by (simp add: p)
qed

text \<open>
  Claim C10, as stated: on observed and expected counts of equal length, all finite,
  the categories with \<open>E \<le> 0\<close> are skipped and the statistic is finite. The statistic
  is not always finite: a term \<open>(O - E)\<^sup>2 / E\<close> overflows when \<open>O - E\<close> is large. For
  the single category \<open>O = 2\<^sup>5\<^sup>1\<^sup>3\<close>, \<open>E = 2\<^sup>5\<^sup>1\<^sup>2\<close> the square is \<open>2\<^sup>1\<^sup>0\<^sup>2\<^sup>4\<close>, which is
  \<open>Infinity\<close> in binary64, and so is the statistic.
\<close>

theorem chiSquareGoodnessOfFit_overflow_counterexample:
  "chiSquareGoodnessOfFit [Fin (2 ^ 513)] [Fin (2 ^ 512)] (Fin 0.05)
     = Inr \<lparr> chiSquareStatistic = PInf, degreesOfFreedom = Fin 0,
             criticalValue = binary64 7.815, reject = True, alpha = Fin 0.05 \<rparr>"
proof -
  have s: "fl_sub (Fin (2 ^ 513)) (Fin (2 ^ 512)) = Fin (2 ^ 512)"
  proof -
    have "(2::real) ^ 513 - 2 ^ 512 = 2 ^ 512" by simp
    then have "fl_sub (Fin (2 ^ 513)) (Fin (2 ^ 512)) = binary64 (2 ^ 512)"
      by (simp only: fl_sub_def js_sub_Fin fl.simps)
    also have "\<dots> = Fin (2 ^ 512)" by (rule binary64_double [OF power2_in_doubles]) simp
    finally show ?thesis .
  qed
  have "((2::real) ^ 512) ^ 2 = 2 ^ 1024" by (simp add: power_mult [symmetric])
  then have p: "fl_pow (Fin (2 ^ 512)) 2 = PInf"
    by (simp only: fl_pow_def Math_pow_Fin fl.simps binary64_overflow order_refl)
  have d: "fl_div PInf (Fin (2 ^ 512)) = PInf" by (simp add: fl_div_def)
  have a: "fl_add (Fin 0) PInf = PInf" by (simp add: fl_add_def)
  have g: "js_gt (Fin (2 ^ 512)) (Fin 0)" by simp
  obtain c where c: "binary64 7.815 = Fin c"
    using binary64_between [OF of_int_in_doubles [of 7] of_int_in_doubles [of 8], of "7.815"]
    by auto
  have r: "js_gt PInf (binary64 7.815)" unfolding c js_gt_def by simp
  have st: "foldl (\<lambda>chiSquare (observed_i, expected_i).
                      if js_gt expected_i (Fin 0)
                      then fl_add chiSquare
                             (fl_div (fl_pow (fl_sub observed_i expected_i) 2) expected_i)
                      else chiSquare)
               (Fin 0) (zip [Fin (2 ^ 513)] [Fin (2 ^ 512)]) = PInf"
    by (simp only: zip_Cons_Cons zip_Nil foldl.simps prod.case g if_True s p d a)
  have df: "fl_sub (len [Fin (2 ^ 513)]) (Fin 1) = Fin 0"
    by (simp add: len_def fl_sub_def)
  show ?thesis
    unfolding chiSquareGoodnessOfFit_def Let_def st df using r by simp
qed

text \<open>
  Claim C10, amended. On observed and expected counts of equal length, all finite,
  \<open>chiSquareGoodnessOfFit\<close> returns, and its statistic is the sum, accumulated in
  binary64, of \<open>(O - E)\<^sup>2 / E\<close> over the categories with \<open>E > 0\<close> only: a category
  whose expected count is zero or negative adds nothing, and no division by it takes
  place. The statistic is never \<open>NaN\<close> and never negative: it is a finite number
  \<open>\<ge> 0\<close>, or \<open>Infinity\<close> when a term or the sum overflows.
\<close>

theorem chiSquareGoodnessOfFit_guarded:
  assumes "length os = length es"
  shows "\<exists>r. chiSquareGoodnessOfFit (map Fin os) (map Fin es) a = Inr r \<and>
             chiSquareStatistic r
               = foldl (\<lambda>chiSquare (ob, ex).
                          fl_add chiSquare
                            (fl_div (fl_pow (fl_sub (Fin ob) (Fin ex)) 2) (Fin ex)))
                   (Fin 0) (filter (\<lambda>(ob, ex). 0 < ex) (zip os es)) \<and>
             (chiSquareStatistic r = PInf \<or> (\<exists>c. 0 \<le> c \<and> chiSquareStatistic r = Fin c))"
proof -
  let ?sum = "foldl (\<lambda>chiSquare (ob, ex).
                          fl_add chiSquare
                            (fl_div (fl_pow (fl_sub (Fin ob) (Fin ex)) 2) (Fin ex)))
                   (Fin 0) (filter (\<lambda>(ob, ex). 0 < ex) (zip os es))"
  have "is_nonneg ?sum"
    by (rule chiSquare_foldl_nonneg) (auto simp: is_nonneg_def)
  then have nn: "?sum = PInf \<or> (\<exists>c. 0 \<le> c \<and> ?sum = Fin c)"
    by (auto simp: is_nonneg_def split: jsnum.splits)
  from assms nn show ?thesis
    by (simp add: chiSquareGoodnessOfFit_def Let_def zip_map_map chiSquare_foldl_skip)
qed

theorem chiSquareGoodnessOfFit_guarded_witness:
  "length [10, 5, 3 :: real] = length [8, 0, - 1 :: real] \<and>
   (\<exists>r. chiSquareGoodnessOfFit (map Fin [10, 5, 3]) (map Fin [8, 0, - 1]) (Fin 0.05) = Inr r \<and>
        chiSquareStatistic r = Fin (1 / 2))"
proof -
  have e: "foldl (\<lambda>chiSquare (ob, ex).
                          fl_add chiSquare
                            (fl_div (fl_pow (fl_sub (Fin ob) (Fin ex)) 2) (Fin ex)))
                   (Fin 0) (filter (\<lambda>(ob, ex). 0 < ex) (zip [10, 5, 3] [8, 0, - 1 :: real]))
             = Fin (1 / 2)"
    by (simp add: fl_add_def fl_div_def fl_pow_def fl_sub_def)
  have l: "length [10, 5, 3 :: real] = length [8, 0, - 1 :: real]" by simp
  from chiSquareGoodnessOfFit_guarded [OF l, of "Fin 0.05"] l
  show ?thesis unfolding e by blast
qed

subsection \<open>Coin flip simulation\<close>

declare coinFlipLoop.simps [simp del]

lemma coinFlipLoop_result:
  "coinFlipLoop n p u i h t rs cs = (h', t', rs', cs') \<Longrightarrow>
     h' = h + length (filter (\<lambda>j. flipAt p u j = ''H'') [i..<n]) \<and>
     t' = t + length (filter (\<lambda>j. flipAt p u j \<noteq> ''H'') [i..<n]) \<and>
     rs' = rs @ map (flipAt p u) [i..<n] \<and>
     map flip cs' = map flip cs @ filter (isCheckpoint n) [Suc i..<Suc n]"
proof (induction n p u i h t rs cs rule: coinFlipLoop.induct)
  case (1 n p u i h t rs cs)
  show ?case
  proof (cases "i < n")
    case False
    with "1.prems" show ?thesis
      by (simp add: coinFlipLoop.simps [of n p u i])
  next
    case True
    define f where "f = flipAt p u i"
    define h1 where "h1 = (if f = ''H'' then h + 1 else h)"
    define t1 where "t1 = (if f = ''H'' then t else t + 1)"
    define cs1 where "cs1 =
       (if (i + 1) mod max 1 (n div 100) = 0 \<or> i = n - 1
        then cs @ [\<lparr> flip = i + 1, headsRatio = js_div (Fin (real h1)) (Fin (real (i + 1))) \<rparr>]
        else cs)"
    have step: "coinFlipLoop n p u i h t rs cs = coinFlipLoop n p u (i + 1) h1 t1 (rs @ [f]) cs1"
      using True
      by (subst coinFlipLoop.simps) (simp add: Let_def f_def h1_def t1_def cs1_def flipAt_def)
    have res: "coinFlipLoop n p u (i + 1) h1 t1 (rs @ [f]) cs1 = (h', t', rs', cs')"
      using "1.prems" step by simp
    have fdef: "f = (if js_lt (Fin (u i)) p then ''H'' else ''T'')"
      by (simp add: f_def flipAt_def)
    have IH: "h' = h1 + length (filter (\<lambda>j. flipAt p u j = ''H'') [i + 1..<n]) \<and>
      t' = t1 + length (filter (\<lambda>j. flipAt p u j \<noteq> ''H'') [i + 1..<n]) \<and>
      rs' = (rs @ [f]) @ map (flipAt p u) [i + 1..<n] \<and>
      map flip cs' = map flip cs1 @ filter (isCheckpoint n) [Suc (i + 1)..<Suc n]"
      by (rule "1.IH" [OF True fdef refl h1_def t1_def cs1_def res])
    have up: "[i..<n] = i # [i + 1..<n]" using True by (simp add: upt_conv_Cons)
    have up': "[Suc i..<Suc n] = Suc i # [Suc (i + 1)..<Suc n]"
      using True by (simp add: upt_conv_Cons)
    have ck: "isCheckpoint n (Suc i) \<longleftrightarrow> ((i + 1) mod max 1 (n div 100) = 0 \<or> i = n - 1)"
      using True by (auto simp: isCheckpoint_def)
    have c1: "map flip cs1 = map flip cs @ filter (isCheckpoint n) [Suc i]"
      by (simp add: cs1_def ck)
    from IH show ?thesis
      unfolding up up' c1 by (simp add: f_def h1_def t1_def)
  qed
qed

lemma last_checkpoint:
  assumes "1 \<le> n"
  shows "filter (isCheckpoint n) [Suc 0..<Suc n] \<noteq> [] \<and>
         last (filter (isCheckpoint n) [Suc 0..<Suc n]) = n"
proof -
  from assms have "[Suc 0..<Suc n] = [Suc 0..<n] @ [n]" by simp
  then have "filter (isCheckpoint n) [Suc 0..<Suc n]
               = filter (isCheckpoint n) [Suc 0..<n] @ [n]"
    by (simp add: isCheckpoint_def)
  then show ?thesis by simp
qed

text \<open>
  Claim C9. For every number of flips \<open>n \<ge> 1\<close>, every probability and every
  sequence of random draws, \<open>coinFlipSimulation\<close> returns \<open>heads + tails = n\<close>
  (\<open>heads\<close> being the number of draws below the probability),
  \<open>headsRatio = heads / n\<close>, the first \<open>100\<close> outcomes as \<open>results\<close>, of length
  \<open>min n 100\<close>, and a checkpoint after exactly the flips whose number is a multiple of
  \<open>max 1 (n div 100)\<close> and after the last flip, so that the last checkpoint records
  flip \<open>n\<close>.
\<close>

theorem coinFlipSimulation_invariants:
  assumes "1 \<le> n"
  shows "heads (coinFlipSimulation u n p) + tails (coinFlipSimulation u n p) = n \<and>
         heads (coinFlipSimulation u n p)
           = length (filter (\<lambda>j. flipAt p u j = ''H'') [0..<n]) \<and>
         CoinFlipResult.headsRatio (coinFlipSimulation u n p)
           = Fin (real (heads (coinFlipSimulation u n p)) / real n) \<and>
         results (coinFlipSimulation u n p) = take 100 (map (flipAt p u) [0..<n]) \<and>
         length (results (coinFlipSimulation u n p)) = min n 100 \<and>
         map flip (cumulativeProportions (coinFlipSimulation u n p))
           = filter (isCheckpoint n) [1..<Suc n] \<and>
         cumulativeProportions (coinFlipSimulation u n p) \<noteq> [] \<and>
         flip (last (cumulativeProportions (coinFlipSimulation u n p))) = n"
proof -
  obtain h' t' rs' cs' where loop: "coinFlipLoop n p u 0 0 0 [] [] = (h', t', rs', cs')"
    by (metis prod_cases4)
  note r = coinFlipLoop_result [OF loop]
  have sim: "coinFlipSimulation u n p =
     \<lparr> numFlips = n, heads = h', tails = t',
       headsRatio = js_div (Fin (real h')) (Fin (real n)),
       tailsRatio = js_div (Fin (real t')) (Fin (real n)),
       results = take 100 rs', cumulativeProportions = cs' \<rparr>"
    by (simp add: coinFlipSimulation_def loop)
  have ht: "h' + t' = n"
    using r sum_length_filter_compl [of "\<lambda>j. flipAt p u j = ''H''" "[0..<n]"] by simp
  have cps: "map flip cs' = filter (isCheckpoint n) [Suc 0..<Suc n]" using r by simp
  have ne: "cs' \<noteq> []" using cps last_checkpoint [OF assms] by auto
  have "flip (last cs') = last (map flip cs')" using ne by (simp add: last_map)
  then have lst: "flip (last cs') = n" using cps last_checkpoint [OF assms] by simp
  from assms have n0: "real n \<noteq> 0" by simp
  show ?thesis
    unfolding sim using r ht cps ne lst n0 by simp
qed

theorem coinFlipSimulation_invariants_witness:
  "(1 :: nat) \<le> 250 \<and>
   heads (coinFlipSimulation (\<lambda>i. if even i then 0.2 else 0.7) 250 (Fin 0.5))
     + tails (coinFlipSimulation (\<lambda>i. if even i then 0.2 else 0.7) 250 (Fin 0.5)) = 250 \<and>
   length (results (coinFlipSimulation (\<lambda>i. if even i then 0.2 else 0.7) 250 (Fin 0.5))) = 100 \<and>
   flip (last (cumulativeProportions
                 (coinFlipSimulation (\<lambda>i. if even i then 0.2 else 0.7) 250 (Fin 0.5)))) = 250"
  using coinFlipSimulation_invariants [of 250 "\<lambda>i. if even i then 0.2 else 0.7" "Fin 0.5"]
  by simp

subsection \<open>The mode\<close>

lemma counts_of_step:
  assumes "counts_of fr c"
  shows "counts_of (count_num fr num) (c(num := Suc (c num)))"
proof -
  have v: "js_add (or_zero (map_of fr num)) (Fin 1) = Fin (real (Suc (c num)))"
    using assms by (simp add: counts_of_def or_zero_def truthy_def)
  show ?thesis
    using assms unfolding counts_of_def count_num_def v
    by (simp add: AList.distinct_update AList.update_conv')
qed

lemma counts_of_foldl:
  "counts_of fr c \<Longrightarrow> counts_of (foldl count_num fr data) (\<lambda>k. c k + count_list data k)"
proof (induction data arbitrary: fr c)
  case Nil
  then show ?case by simp
next
  case (Cons x xs)
  have "(\<lambda>k. (c(x := Suc (c x))) k + count_list xs k) = (\<lambda>k. c k + count_list (x # xs) k)"
    by auto
  with Cons.IH [OF counts_of_step [OF Cons.prems, of x]] show ?case by simp
qed

lemma counts_of_frequency: "counts_of (foldl count_num [] data) (count_list data)"
  using counts_of_foldl [of "[]" "\<lambda>_. 0" data] by (simp add: counts_of_def)

lemma set_Object_entries [simp]: "set (Object_entries obj) = set obj"
  by (auto simp: Object_entries_def)

lemma distinct_Object_keys:
  assumes "distinct (map fst obj)"
  shows "distinct (Object_keys obj)"
proof -
  from assms have d: "distinct obj" and i: "inj_on fst (set obj)"
    by (simp_all add: distinct_map)
  have "distinct (Object_entries obj)"
    using d by (auto simp: Object_entries_def)
  with i show ?thesis
    by (simp add: Object_keys_def distinct_map)
qed

lemma set_Object_keys: "set (Object_keys obj) = fst ` set obj"
  by (simp add: Object_keys_def)

lemma foldl_js_max2_Fin:
  "foldl js_max2 (Fin a) (map Fin rs) = Fin (Max (insert a (set rs)))"
proof (induction rs arbitrary: a)
  case Nil
  then show ?case by simp
next
  case (Cons r rs)
  have "js_max2 (Fin a) (Fin r) = Fin (max a r)"
    by (simp add: js_max2_def max_def)
  moreover have "Max (insert (max a r) (set rs)) = Max (insert a (insert r (set rs)))"
    by (cases "set rs = {}") (simp_all add: max.assoc)
  ultimately show ?case using Cons.IH [of "max a r"] by simp
qed

lemma Math_max_Fin:
  assumes "rs \<noteq> []"
  shows "Math_max (map Fin rs) = Fin (Max (set rs))"
proof -
  obtain r rs' where rs: "rs = r # rs'" using assms by (cases rs) auto
  have "js_max2 NInf (Fin r) = Fin r" by (simp add: js_max2_def)
  then show ?thesis
    by (simp add: Math_max_def rs foldl_js_max2_Fin)
qed


lemma frequency_keys:
  "fst ` set (foldl count_num [] data) = set data"
proof -
  have "dom (map_of (foldl count_num [] data)) = set data"
    using counts_of_frequency [of data]
    by (auto simp: counts_of_def dom_def count_list_0_iff split: if_splits)
  then show ?thesis by (simp add: dom_map_of_conv_image_fst)
qed

lemma frequency_lookup:
  "k \<in> set data \<Longrightarrow>
     map_of (foldl count_num [] data) k = Some (Fin (real (count_list data k)))"
  using counts_of_frequency [of data] by (simp add: counts_of_def count_list_0_iff)

lemma frequency_maxFreq:
  assumes "data \<noteq> []"
  shows "Math_max (Object_values (foldl count_num [] data))
           = Fin (real (Max (count_list data ` set data)))"
proof -
  define F where "F = foldl count_num [] data"
  have d: "distinct (map fst F)"
    using counts_of_frequency [of data] by (simp add: counts_of_def F_def)
  have snd_eq: "snd e = Fin (real (count_list data (fst e)))" if "e \<in> set F" for e
  proof -
    from that have "fst e \<in> set data" using frequency_keys [of data] by (auto simp: F_def)
    then have "map_of F (fst e) = Some (Fin (real (count_list data (fst e))))"
      unfolding F_def by (rule frequency_lookup)
    moreover from that d have "map_of F (fst e) = Some (snd e)" by simp
    ultimately show ?thesis by simp
  qed
  have vals: "Object_values F
                = map Fin (map (\<lambda>e. real (count_list data (fst e))) (Object_entries F))"
    by (simp add: Object_values_def snd_eq)
  have "fst ` set F \<noteq> {}" using assms frequency_keys [of data] by (simp add: F_def)
  then have ne: "map (\<lambda>e. real (count_list data (fst e))) (Object_entries F) \<noteq> []"
    by (metis image_is_empty list.map_disc_iff set_Object_entries set_empty)
  have "set (map (\<lambda>e. real (count_list data (fst e))) (Object_entries F))
          = (\<lambda>k. real (count_list data k)) ` fst ` set F"
    by (simp add: image_image)
  then have "set (map (\<lambda>e. real (count_list data (fst e))) (Object_entries F))
          = real ` count_list data ` set data"
    by (simp add: F_def frequency_keys image_image)
  moreover have "Max (real ` count_list data ` set data) = real (Max (count_list data ` set data))"
    using assms by (intro mono_Max_commute [symmetric]) (auto simp: mono_def)
  ultimately show ?thesis
    unfolding F_def [symmetric] vals Math_max_Fin [OF ne] by simp
qed

text \<open>
  Claim C8. On a non-empty sample \<open>S\<close>, \<open>mode\<close> returns exactly the values of
  \<open>S\<close> that occur as often as the most frequent one, each of them once: every tied
  value is returned, the whole sample when no value repeats. The numbers of
  occurrences of the returned values add up to at most the length of \<open>S\<close>.
\<close>

theorem stats_mode_all_ties:
  assumes "S \<noteq> []"
  shows "set (stats_mode S) = {v \<in> set S. count_list S v = Max (count_list S ` set S)} \<and>
         distinct (stats_mode S) \<and>
         sum_list (map (count_list S) (stats_mode S)) \<le> length S"
proof -
  define F where "F = foldl count_num [] S"
  define M where "M = Max (count_list S ` set S)"
  have d: "distinct (map fst F)"
    using counts_of_frequency [of S] by (simp add: counts_of_def F_def)
  have mf: "Math_max (Object_values F) = Fin (real M)"
    using frequency_maxFreq [OF assms] by (simp add: F_def M_def)
  have mode_eq: "stats_mode S =
      filter (\<lambda>key. case map_of F key of None \<Rightarrow> False | Some v \<Rightarrow> js_eq v (Fin (real M)))
        (Object_keys F)"
    unfolding stats_mode_def Let_def F_def [symmetric] mf ..
  have keys: "set (Object_keys F) = set S"
    by (simp add: set_Object_keys F_def frequency_keys)
  have sel: "(case map_of F k of None \<Rightarrow> False | Some v \<Rightarrow> js_eq v (Fin (real M)))
               \<longleftrightarrow> count_list S k = M" if "k \<in> set S" for k
    using frequency_lookup [OF that] by (simp add: F_def js_eq_def)
  have s: "set (stats_mode S) = {v \<in> set S. count_list S v = M}"
    unfolding mode_eq using keys sel by auto
  have dm: "distinct (stats_mode S)"
    unfolding mode_eq using distinct_Object_keys [OF d] by simp
  have "sum_list (map (count_list S) (stats_mode S)) = sum (count_list S) (set (stats_mode S))"
    using dm by (simp add: sum_list_distinct_conv_sum_set)
  also have "\<dots> \<le> sum (count_list S) (set S)"
    by (rule sum_mono2) (auto simp: s)
  also have "\<dots> = length S" by (simp add: sum_count_set)
  finally show ?thesis using s dm by (simp add: M_def)
qed

theorem stats_mode_all_ties_witness:
  "[Fin 1, Fin 2, Fin 2, Fin 3, Fin 3] \<noteq> [] \<and>
   set (stats_mode [Fin 1, Fin 2, Fin 2, Fin 3, Fin 3]) = {Fin 2, Fin 3} \<and>
   sum_list (map (count_list [Fin 1, Fin 2, Fin 2, Fin 3, Fin 3])
                 (stats_mode [Fin 1, Fin 2, Fin 2, Fin 3, Fin 3]))
     \<le> length [Fin 1, Fin 2, Fin 2, Fin 3, Fin 3]"
proof -
  have m: "Max (count_list [Fin 1, Fin 2, Fin 2, Fin 3, Fin 3]
                  ` set [Fin 1, Fin 2, Fin 2, Fin 3, Fin 3]) = 2"
    by simp
  have e: "{v \<in> set [Fin 1, Fin 2, Fin 2, Fin 3, Fin 3].
              count_list [Fin 1, Fin 2, Fin 2, Fin 3, Fin 3] v = 2} = {Fin 2, Fin 3}"
    by auto
  show ?thesis
    using stats_mode_all_ties [of "[Fin 1, Fin 2, Fin 2, Fin 3, Fin 3]"]
    unfolding m e by simp
qed

subsection \<open>The histogram\<close>

lemma foldl_js_min2_Fin:
  "foldl js_min2 (Fin a) (map Fin rs) = Fin (Min (insert a (set rs)))"
proof (induction rs arbitrary: a)
  case Nil
  then show ?case by simp
next
  case (Cons r rs)
  have "js_min2 (Fin a) (Fin r) = Fin (min a r)"
    by (simp add: js_min2_def min_def)
  moreover have "Min (insert (min a r) (set rs)) = Min (insert a (insert r (set rs)))"
    by (cases "set rs = {}") (simp_all add: min.assoc)
  ultimately show ?case using Cons.IH [of "min a r"] by simp
qed

lemma Math_min_Fin:
  assumes "rs \<noteq> []"
  shows "Math_min (map Fin rs) = Fin (Min (set rs))"
proof -
  obtain r rs' where rs: "rs = r # rs'" using assms by (cases rs) auto
  have "js_min2 PInf (Fin r) = Fin r" by (simp add: js_min2_def)
  then show ?thesis
    by (simp add: Math_min_def rs foldl_js_min2_Fin)
qed

lemma increment_in_range:
  assumes "k < length bc"
  shows "increment bc (Fin (real k)) = bc[k := Suc (bc ! k)]"
  using assms by (simp add: increment_def)

lemma sum_list_bump:
  assumes "k < length (bc :: nat list)"
  shows "sum_list (bc[k := Suc (bc ! k)]) = Suc (sum_list bc)"
  using assms by (simp add: sum_list_update)

lemma count_value_counts:
  assumes len: "length bc = bins" and b: "1 \<le> bins" and w: "0 < hi - lo"
    and x: "lo \<le> x" "x \<le> hi"
  shows "length (count_value (Fin lo) (Fin ((hi - lo) / real bins)) bins bc (Fin x)) = bins \<and>
         sum_list (count_value (Fin lo) (Fin ((hi - lo) / real bins)) bins bc (Fin x))
           = Suc (sum_list bc)"
proof -
  define q where "q = (x - lo) / ((hi - lo) / real bins)"
  have bw: "(hi - lo) / real bins > 0" using w b by simp
  have bw0: "(hi - lo) / real bins \<noteq> 0" using w b by simp
  have q0: "0 \<le> q" using x bw by (simp add: q_def)
  have "x - lo \<le> hi - lo" using x by simp
  then have "(x - lo) / (hi - lo) \<le> 1" using w by (simp add: divide_le_eq_1)
  then have "q \<le> real bins"
    using b w unfolding q_def by (simp add: field_simps)
  then have fl: "\<lfloor>q\<rfloor> \<le> int bins" by (simp add: floor_le_iff)
  have fl0: "0 \<le> \<lfloor>q\<rfloor>" using q0 by simp
  define k where "k = (if nat \<lfloor>q\<rfloor> = bins then bins - 1 else nat \<lfloor>q\<rfloor>)"
  have k: "k < length bc" using fl fl0 b len by (auto simp: k_def)
  have idx: "Math_floor (js_div (js_sub (Fin x) (Fin lo)) (Fin ((hi - lo) / real bins)))
               = Fin (real (nat \<lfloor>q\<rfloor>))"
    using bw0 fl0 by (simp add: q_def)
  have "count_value (Fin lo) (Fin ((hi - lo) / real bins)) bins bc (Fin x)
          = increment bc (Fin (real k))"
    unfolding count_value_def Let_def idx using b
    by (auto simp: k_def js_eq_def of_nat_diff)
  then show ?thesis
    using k by (simp add: increment_in_range sum_list_bump len)
qed


lemma histogram_foldl_counts:
  assumes "length bc = bins" and "1 \<le> bins" and "0 < hi - lo"
    and "\<forall>x\<in>set ys. lo \<le> x \<and> x \<le> hi"
  shows "length (foldl (count_value (Fin lo) (Fin ((hi - lo) / real bins)) bins) bc (map Fin ys))
           = bins \<and>
         sum_list (foldl (count_value (Fin lo) (Fin ((hi - lo) / real bins)) bins) bc (map Fin ys))
           = sum_list bc + length ys"
  using assms
proof (induction ys arbitrary: bc)
  case Nil
  then show ?case by simp
next
  case (Cons y ys)
  from Cons.prems have y: "lo \<le> y" "y \<le> hi" by simp_all
  note step = count_value_counts [OF Cons.prems(1,2,3) y]
  from Cons.prems have "\<forall>x\<in>set ys. lo \<le> x \<and> x \<le> hi" by simp
  from Cons.IH [OF conjunct1 [OF step] Cons.prems(2,3) this] step
  show ?case by simp
qed

text \<open>
  On a sample of finite numbers that are not all equal, every value is counted in one
  of the \<open>bins\<close> bins, the maximum in the last one: the counts add up to the
  length of the sample (the bin index being computed with the exact operations).
\<close>

lemma stats_histogram_counts_sum:
  assumes "xs \<noteq> []" and "Min (set xs) < Max (set xs)" and "1 \<le> bins"
  shows "length (stats_histogram (map Fin xs) bins) = bins \<and>
         sum_list (map count (stats_histogram (map Fin xs) bins)) = length xs"
proof -
  note ne = assms(1)
  define lo where "lo = Min (set xs)"
  define hi where "hi = Max (set xs)"
  have w: "0 < hi - lo" using assms(2) by (simp add: lo_def hi_def)
  have range: "\<forall>x\<in>set xs. lo \<le> x \<and> x \<le> hi" by (simp add: lo_def hi_def)
  have mn: "Math_min (map Fin xs) = Fin lo" by (simp add: Math_min_Fin [OF ne] lo_def)
  have mx: "Math_max (map Fin xs) = Fin hi" by (simp add: Math_max_Fin [OF ne] hi_def)
  have bw: "js_div (js_sub (Fin hi) (Fin lo)) (Fin (real bins)) = Fin ((hi - lo) / real bins)"
    using assms(3) by simp
  note f = histogram_foldl_counts [of "replicate bins 0" bins hi lo xs, OF _ assms(3) w range]
  have cnt: "map count (stats_histogram (map Fin xs) bins)
          = foldl (count_value (Fin lo) (Fin ((hi - lo) / real bins)) bins) (replicate bins 0)
              (map Fin xs)"
    unfolding stats_histogram_def Let_def mn mx bw by (simp add: comp_def)
  have "length (stats_histogram (map Fin xs) bins)
          = length (map count (stats_histogram (map Fin xs) bins))" by simp
  with f show ?thesis unfolding cnt by simp
qed

text \<open>
  Claim C3 says that the counts of \<open>histogram(S, bins)\<close> add up to the length of
  \<open>S\<close> for every non-empty sample and every \<open>bins \<ge> 1\<close>. On a sample whose
  values are all equal they do not: the bin width is \<open>0\<close>, the bin index of every
  value is \<open>floor(0/0)\<close>, which is \<open>NaN\<close>, and no bin is incremented. For the
  sample \<open>[5]\<close> and one bin the single count is \<open>0\<close>, not \<open>1\<close>.
\<close>

theorem stats_histogram_constant_sample:
  "stats_histogram [Fin 5] 1 = [\<lparr> count = 0, frequency = Fin 0 \<rparr>] \<and>
   sum_list (map count (stats_histogram [Fin 5] 1)) \<noteq> length [Fin 5]"
proof -
  have "stats_histogram [Fin 5] 1 = [\<lparr> count = 0, frequency = Fin 0 \<rparr>]"
    by (simp add: stats_histogram_def Let_def Math_min_def Math_max_def js_min2_def js_max2_def
          count_value_def inf_of_sign_def increment_def js_eq_def len_def)
  then show ?thesis by simp
qed

end
